theory Spec2Isabelle
  imports Complex_Main "HOL-Library.Word"
begin

unbundle bit_operations_syntax

section \<open>Lanes of the scalar backend (simd/scalar.h)\<close>

text \<open>
  \<^verbatim>\<open>template <typename T> struct scalar { T raw; }\<close>: a vector of one lane. An
  integer lane of \<open>w\<close> bits is a \<open>w word\<close>; the signed types read it with \<open>sint\<close>,
  the unsigned ones with \<open>uint\<close>. A \<^verbatim>\<open>float\<close> lane is its IEEE-754 binary32 bit pattern
  (a \<open>32 word\<close>), a \<^verbatim>\<open>double\<close> lane its binary64 bit pattern (a \<open>64 word\<close>).
  C's \<^verbatim>\<open>int\<close>, the type every narrower integer is promoted to before arithmetic, has
  32 bits on the targets of this library.
\<close>

datatype 'a scalar = scalar (raw: 'a)

type_synonym uint8_t = "8 word"
type_synonym uint16_t = "16 word"
type_synonym uint32_t = "32 word"
type_synonym uint64_t = "64 word"
type_synonym int8_t = "8 word"
type_synonym int16_t = "16 word"
type_synonym int32_t = "32 word"
type_synonym int64_t = "64 word"
type_synonym c_int = "32 word"

text \<open>
  Modelled from the spec: the macros \<^verbatim>\<open>SIMD_MIN\<close> and \<^verbatim>\<open>SIMD_MAX\<close> come from simd/simd.h,
  which is not among the sources. They are the minimum and the maximum of two values
  (\<^verbatim>\<open>(a) < (b) ? (a) : (b)\<close> and \<^verbatim>\<open>(a) < (b) ? (b) : (a)\<close>); in the saturating operations
  both arguments are of type \<^verbatim>\<open>int\<close>, so the comparison is the signed one.
\<close>

definition SIMD_MIN :: "c_int \<Rightarrow> c_int \<Rightarrow> c_int" where
  "SIMD_MIN a b = (if a <s b then a else b)"

definition SIMD_MAX :: "c_int \<Rightarrow> c_int \<Rightarrow> c_int" where
  "SIMD_MAX a b = (if a <s b then b else a)"

subsection \<open>Saturating addition and subtraction\<close>

text \<open>
  \<^verbatim>\<open>scalar<uint8_t>(SIMD_MIN(SIMD_MAX(0, a.raw + b.raw), 255))\<close>: the operands are
  promoted to \<^verbatim>\<open>int\<close> (zero extension \<open>ucast\<close> for the unsigned types, sign extension
  \<open>scast\<close> for the signed ones), added or subtracted as \<^verbatim>\<open>int\<close>, clamped, and the
  \<^verbatim>\<open>int\<close> is narrowed to the lane type by the constructor (the low bits, \<open>ucast\<close>).
\<close>

definition add_sat_u8 :: "uint8_t scalar \<Rightarrow> uint8_t scalar \<Rightarrow> uint8_t scalar" where
  "add_sat_u8 a b = scalar (ucast (SIMD_MIN (SIMD_MAX 0 (ucast (raw a) + ucast (raw b))) 255))"

definition add_sat_u16 :: "uint16_t scalar \<Rightarrow> uint16_t scalar \<Rightarrow> uint16_t scalar" where
  "add_sat_u16 a b = scalar (ucast (SIMD_MIN (SIMD_MAX 0 (ucast (raw a) + ucast (raw b))) 65535))"

definition add_sat_i8 :: "int8_t scalar \<Rightarrow> int8_t scalar \<Rightarrow> int8_t scalar" where
  "add_sat_i8 a b = scalar (ucast (SIMD_MIN (SIMD_MAX (- 128) (scast (raw a) + scast (raw b))) 127))"

definition add_sat_i16 :: "int16_t scalar \<Rightarrow> int16_t scalar \<Rightarrow> int16_t scalar" where
  "add_sat_i16 a b =
     scalar (ucast (SIMD_MIN (SIMD_MAX (- 32768) (scast (raw a) + scast (raw b))) 32767))"

definition sub_sat_u8 :: "uint8_t scalar \<Rightarrow> uint8_t scalar \<Rightarrow> uint8_t scalar" where
  "sub_sat_u8 a b = scalar (ucast (SIMD_MIN (SIMD_MAX 0 (ucast (raw a) - ucast (raw b))) 255))"

definition sub_sat_u16 :: "uint16_t scalar \<Rightarrow> uint16_t scalar \<Rightarrow> uint16_t scalar" where
  "sub_sat_u16 a b = scalar (ucast (SIMD_MIN (SIMD_MAX 0 (ucast (raw a) - ucast (raw b))) 65535))"

definition sub_sat_i8 :: "int8_t scalar \<Rightarrow> int8_t scalar \<Rightarrow> int8_t scalar" where
  "sub_sat_i8 a b = scalar (ucast (SIMD_MIN (SIMD_MAX (- 128) (scast (raw a) - scast (raw b))) 127))"

definition sub_sat_i16 :: "int16_t scalar \<Rightarrow> int16_t scalar \<Rightarrow> int16_t scalar" where
  "sub_sat_i16 a b =
     scalar (ucast (SIMD_MIN (SIMD_MAX (- 32768) (scast (raw a) - scast (raw b))) 32767))"

text \<open>The exact integer clamped to a range, as the claim words it.\<close>

definition clamp_to :: "int \<Rightarrow> int \<Rightarrow> int \<Rightarrow> int" where
  "clamp_to lo hi x = min (max lo x) hi"

subsection \<open>Integer promotion and narrowing\<close>

lemma sint_promote_unsigned:
  fixes a :: "'a::len word"
  assumes "LENGTH('a) < 32"
  shows "sint (ucast a :: c_int) = uint a"
proof -
  have u: "uint (ucast a :: c_int) = uint a"
    using assms by (simp add: uint_up_ucast is_up)
  have "(2::int) ^ LENGTH('a) \<le> 2 ^ 31"
    using assms by (intro power_increasing) simp_all
  then have b: "uint a < 2 ^ 31"
    using uint_bounded[of a] by linarith
  have "sint (ucast a :: c_int) = signed_take_bit 31 (uint (ucast a :: c_int))"
    by (simp add: sint_uint)
  also have "\<dots> = uint a"
  proof -
    have "0 \<le> uint a" and "(0::int) \<le> 2 ^ 31" by simp_all
    then have "- (2 ^ 31) \<le> uint a" by linarith
    then show ?thesis unfolding u using b by (intro signed_take_bit_int_eq_self)
  qed
  finally show ?thesis .
qed

lemma sint_promote_signed:
  fixes a :: "'a::len word"
  assumes "LENGTH('a) < 32"
  shows "sint (scast a :: c_int) = sint a"
  using assms by (simp add: sint_up_scast is_up)

lemma narrow_sint:
  fixes r :: c_int
  assumes "LENGTH('a::len) < 32"
  shows "sint (ucast r :: 'a word) = signed_take_bit (LENGTH('a) - 1) (sint r)"
  using assms by (intro bit_eqI) (auto simp add: bit_simps min_def)

lemma narrow_uint:
  fixes r :: c_int
  assumes "LENGTH('a::len) < 32"
  shows "uint (ucast r :: 'a word) = take_bit LENGTH('a) (sint r)"
  using assms by (intro bit_eqI) (auto simp add: bit_simps min_def)

lemma sint_int_arith:
  fixes x y :: c_int
  assumes "- 1073741824 \<le> sint x" "sint x < 1073741824"
      and "- 1073741824 \<le> sint y" "sint y < 1073741824"
  shows "sint (x + y) = sint x + sint y" and "sint (x - y) = sint x - sint y"
  using assms by (simp_all add: sint_word_ariths signed_take_bit_int_eq_self)

lemma promoted_u8:
  fixes a :: uint8_t
  shows "sint (ucast a :: c_int) = uint a"
    and "- 1073741824 \<le> uint a" and "uint a < 1073741824"
    and "0 \<le> uint a" and "uint a \<le> 255"
proof -
  have "0 \<le> uint a" by simp
  moreover have "uint a < 256" using uint_bounded[of a] by simp
  ultimately show "- 1073741824 \<le> uint a" "uint a < 1073741824" "0 \<le> uint a" "uint a \<le> 255"
    by linarith+
  show "sint (ucast a :: c_int) = uint a" by (simp add: sint_promote_unsigned)
qed

lemma promoted_u16:
  fixes a :: uint16_t
  shows "sint (ucast a :: c_int) = uint a"
    and "- 1073741824 \<le> uint a" and "uint a < 1073741824"
    and "0 \<le> uint a" and "uint a \<le> 65535"
proof -
  have "0 \<le> uint a" by simp
  moreover have "uint a < 65536" using uint_bounded[of a] by simp
  ultimately show "- 1073741824 \<le> uint a" "uint a < 1073741824" "0 \<le> uint a" "uint a \<le> 65535"
    by linarith+
  show "sint (ucast a :: c_int) = uint a" by (simp add: sint_promote_unsigned)
qed

lemma promoted_i8:
  fixes a :: int8_t
  shows "sint (scast a :: c_int) = sint a"
    and "- 1073741824 \<le> sint a" and "sint a < 1073741824"
    and "- 128 \<le> sint a" and "sint a \<le> 127"
proof -
  have "- 128 \<le> sint a" using sint_ge[of a] by simp
  moreover have "sint a < 128" using sint_lt[of a] by simp
  ultimately show "- 1073741824 \<le> sint a" "sint a < 1073741824" "- 128 \<le> sint a" "sint a \<le> 127"
    by linarith+
  show "sint (scast a :: c_int) = sint a" by (simp add: sint_promote_signed)
qed

lemma promoted_i16:
  fixes a :: int16_t
  shows "sint (scast a :: c_int) = sint a"
    and "- 1073741824 \<le> sint a" and "sint a < 1073741824"
    and "- 32768 \<le> sint a" and "sint a \<le> 32767"
proof -
  have "- 32768 \<le> sint a" using sint_ge[of a] by simp
  moreover have "sint a < 32768" using sint_lt[of a] by simp
  ultimately show "- 1073741824 \<le> sint a" "sint a < 1073741824" "- 32768 \<le> sint a" "sint a \<le> 32767"
    by linarith+
  show "sint (scast a :: c_int) = sint a" by (simp add: sint_promote_signed)
qed

lemma sint_SIMD_MIN: "sint (SIMD_MIN a b) = min (sint a) (sint b)"
  by (simp add: SIMD_MIN_def word_sless_alt min_def)

lemma sint_SIMD_MAX: "sint (SIMD_MAX a b) = max (sint a) (sint b)"
  by (simp add: SIMD_MAX_def word_sless_alt max_def)

lemma sint_clamped:
  "sint (SIMD_MIN (SIMD_MAX lo x) hi) = clamp_to (sint lo) (sint hi) (sint x)"
  by (simp add: sint_SIMD_MIN sint_SIMD_MAX clamp_to_def)

lemma narrow_clamped_unsigned:
  fixes r :: c_int
  assumes "LENGTH('a::len) < 32" and "sint r = clamp_to 0 (2 ^ LENGTH('a) - 1) k"
  shows "uint (ucast r :: 'a word) = clamp_to 0 (2 ^ LENGTH('a) - 1) k"
proof -
  have "0 \<le> clamp_to 0 (2 ^ LENGTH('a) - 1) k" "clamp_to 0 (2 ^ LENGTH('a) - 1) k < 2 ^ LENGTH('a)"
    by (simp_all add: clamp_to_def)
  then show ?thesis
    using assms by (simp add: narrow_uint take_bit_int_eq_self)
qed

lemma narrow_clamped_signed:
  fixes r :: c_int
  assumes "LENGTH('a::len) < 32"
    and "sint r = clamp_to (- (2 ^ (LENGTH('a) - 1))) (2 ^ (LENGTH('a) - 1) - 1) k"
  shows "sint (ucast r :: 'a word) = clamp_to (- (2 ^ (LENGTH('a) - 1))) (2 ^ (LENGTH('a) - 1) - 1) k"
proof -
  let ?c = "clamp_to (- (2 ^ (LENGTH('a) - 1))) (2 ^ (LENGTH('a) - 1) - 1) k"
  have "- (2 ^ (LENGTH('a) - 1)) \<le> ?c" "?c < 2 ^ (LENGTH('a) - 1)"
    by (simp_all add: clamp_to_def)
  then show ?thesis
    using assms by (simp add: narrow_sint signed_take_bit_int_eq_self)
qed

subsection \<open>The saturating operations clamp the exact result\<close>

lemma add_sat_u8_clamp:
  "uint (raw (add_sat_u8 a b)) = clamp_to 0 255 (uint (raw a) + uint (raw b))"
proof -
  have "sint (SIMD_MIN (SIMD_MAX 0 (ucast (raw a) + ucast (raw b))) 255)
      = clamp_to 0 255 (uint (raw a) + uint (raw b))"
    by (simp add: sint_clamped sint_int_arith promoted_u8)
  then show ?thesis
    unfolding add_sat_u8_def scalar.sel
    using narrow_clamped_unsigned[where 'a=8] by simp
qed

lemma add_sat_u16_clamp:
  "uint (raw (add_sat_u16 a b)) = clamp_to 0 65535 (uint (raw a) + uint (raw b))"
proof -
  have "sint (SIMD_MIN (SIMD_MAX 0 (ucast (raw a) + ucast (raw b))) 65535)
      = clamp_to 0 65535 (uint (raw a) + uint (raw b))"
    by (simp add: sint_clamped sint_int_arith promoted_u16)
  then show ?thesis
    unfolding add_sat_u16_def scalar.sel
    using narrow_clamped_unsigned[where 'a=16] by simp
qed

lemma add_sat_i8_clamp:
  "sint (raw (add_sat_i8 a b)) = clamp_to (- 128) 127 (sint (raw a) + sint (raw b))"
proof -
  have "sint (SIMD_MIN (SIMD_MAX (- 128) (scast (raw a) + scast (raw b))) 127)
      = clamp_to (- 128) 127 (sint (raw a) + sint (raw b))"
    by (simp add: sint_clamped sint_int_arith promoted_i8)
  then show ?thesis
    unfolding add_sat_i8_def scalar.sel
    using narrow_clamped_signed[where 'a=8] by simp
qed

lemma add_sat_i16_clamp:
  "sint (raw (add_sat_i16 a b)) = clamp_to (- 32768) 32767 (sint (raw a) + sint (raw b))"
proof -
  have "sint (SIMD_MIN (SIMD_MAX (- 32768) (scast (raw a) + scast (raw b))) 32767)
      = clamp_to (- 32768) 32767 (sint (raw a) + sint (raw b))"
    by (simp add: sint_clamped sint_int_arith promoted_i16)
  then show ?thesis
    unfolding add_sat_i16_def scalar.sel
    using narrow_clamped_signed[where 'a=16] by simp
qed

lemma sub_sat_u8_clamp:
  "uint (raw (sub_sat_u8 a b)) = clamp_to 0 255 (uint (raw a) - uint (raw b))"
proof -
  have "sint (SIMD_MIN (SIMD_MAX 0 (ucast (raw a) - ucast (raw b))) 255)
      = clamp_to 0 255 (uint (raw a) - uint (raw b))"
    by (simp add: sint_clamped sint_int_arith promoted_u8)
  then show ?thesis
    unfolding sub_sat_u8_def scalar.sel
    using narrow_clamped_unsigned[where 'a=8] by simp
qed

lemma sub_sat_u16_clamp:
  "uint (raw (sub_sat_u16 a b)) = clamp_to 0 65535 (uint (raw a) - uint (raw b))"
proof -
  have "sint (SIMD_MIN (SIMD_MAX 0 (ucast (raw a) - ucast (raw b))) 65535)
      = clamp_to 0 65535 (uint (raw a) - uint (raw b))"
    by (simp add: sint_clamped sint_int_arith promoted_u16)
  then show ?thesis
    unfolding sub_sat_u16_def scalar.sel
    using narrow_clamped_unsigned[where 'a=16] by simp
qed

lemma sub_sat_i8_clamp:
  "sint (raw (sub_sat_i8 a b)) = clamp_to (- 128) 127 (sint (raw a) - sint (raw b))"
proof -
  have "sint (SIMD_MIN (SIMD_MAX (- 128) (scast (raw a) - scast (raw b))) 127)
      = clamp_to (- 128) 127 (sint (raw a) - sint (raw b))"
    by (simp add: sint_clamped sint_int_arith promoted_i8)
  then show ?thesis
    unfolding sub_sat_i8_def scalar.sel
    using narrow_clamped_signed[where 'a=8] by simp
qed

lemma sub_sat_i16_clamp:
  "sint (raw (sub_sat_i16 a b)) = clamp_to (- 32768) 32767 (sint (raw a) - sint (raw b))"
proof -
  have "sint (SIMD_MIN (SIMD_MAX (- 32768) (scast (raw a) - scast (raw b))) 32767)
      = clamp_to (- 32768) 32767 (sint (raw a) - sint (raw b))"
    by (simp add: sint_clamped sint_int_arith promoted_i16)
  then show ?thesis
    unfolding sub_sat_i16_def scalar.sel
    using narrow_clamped_signed[where 'a=16] by simp
qed

text \<open>
  Claim C1. For each of the lane types uint8, uint16, int8 and int16 and all lanes \<open>a\<close>,
  \<open>b\<close>, \<open>add_sat a b\<close> is the exact integer sum of the two lane values clamped to the
  range of the type, and \<open>sub_sat a b\<close> is the exact integer difference clamped to that
  range (the unsigned lanes read with \<open>uint\<close>, the signed ones with \<open>sint\<close>). In
  particular \<open>add_sat\<close> of the uint8 lanes 250 and 10 is 255, not the wrapped sum 4.
\<close>

theorem add_sat_sub_sat_clamp:
  "uint (raw (add_sat_u8 a8 b8)) = clamp_to 0 255 (uint (raw a8) + uint (raw b8))
   \<and> uint (raw (add_sat_u16 a16 b16)) = clamp_to 0 65535 (uint (raw a16) + uint (raw b16))
   \<and> sint (raw (add_sat_i8 a8 b8)) = clamp_to (- 128) 127 (sint (raw a8) + sint (raw b8))
   \<and> sint (raw (add_sat_i16 a16 b16)) = clamp_to (- 32768) 32767 (sint (raw a16) + sint (raw b16))
   \<and> uint (raw (sub_sat_u8 a8 b8)) = clamp_to 0 255 (uint (raw a8) - uint (raw b8))
   \<and> uint (raw (sub_sat_u16 a16 b16)) = clamp_to 0 65535 (uint (raw a16) - uint (raw b16))
   \<and> sint (raw (sub_sat_i8 a8 b8)) = clamp_to (- 128) 127 (sint (raw a8) - sint (raw b8))
   \<and> sint (raw (sub_sat_i16 a16 b16)) = clamp_to (- 32768) 32767 (sint (raw a16) - sint (raw b16))
   \<and> add_sat_u8 (scalar 250) (scalar 10) = scalar 255"
proof -
  have "add_sat_u8 (scalar 250) (scalar 10) = scalar 255"
    by (simp add: add_sat_u8_def SIMD_MIN_def SIMD_MAX_def word_sless_alt)
  then show ?thesis
    by (simp only: add_sat_u8_clamp add_sat_u16_clamp add_sat_i8_clamp add_sat_i16_clamp
        sub_sat_u8_clamp sub_sat_u16_clamp sub_sat_i8_clamp sub_sat_i16_clamp simp_thms)
qed

section \<open>Object representations and \<^verbatim>\<open>CopyBytes\<close>\<close>

text \<open>
  The object representation of a lane is its bytes in memory order (little-endian, the
  byte order of the x86 targets of this library): \<open>to_bytes n w\<close> are the \<open>n\<close> lowest
  bytes of \<open>w\<close>, lowest first, and \<open>from_bytes\<close> reads a value back from its bytes.
\<close>

type_synonym byte = "8 word"

fun to_bytes :: "nat \<Rightarrow> 'a::len word \<Rightarrow> byte list" where
  "to_bytes 0 w = []"
| "to_bytes (Suc n) w = ucast w # to_bytes n (drop_bit 8 w)"

fun from_bytes :: "byte list \<Rightarrow> 'a::len word" where
  "from_bytes [] = 0"
| "from_bytes (b # bs) = ucast b OR push_bit 8 (from_bytes bs)"

text \<open>
  Modelled from the spec: \<^verbatim>\<open>CopyBytes<kBytes>(from, to)\<close> is declared in simd/simd.h, which
  is not among the sources; it copies \<^verbatim>\<open>kBytes\<close> bytes from \<^verbatim>\<open>from\<close> to \<^verbatim>\<open>to\<close> (a \<^verbatim>\<open>memcpy\<close>).
  \<open>src\<close> is the memory that starts at \<^verbatim>\<open>from\<close>, \<open>dst\<close> the memory that starts at \<^verbatim>\<open>to\<close>;
  the result is the memory that starts at \<^verbatim>\<open>to\<close> after the copy.
\<close>

definition CopyBytes :: "nat \<Rightarrow> byte list \<Rightarrow> byte list \<Rightarrow> byte list" where
  "CopyBytes kBytes src dst = take kBytes src @ drop kBytes dst"

text \<open>
  A local variable declared without an initialiser (\<^verbatim>\<open>Bits ia;\<close>, \<^verbatim>\<open>T ret;\<close>). Its bytes are
  indeterminate; where it is used below, every byte is overwritten before it is read
  (lemma \<open>CopyBytes_whole\<close>), so the bytes chosen here are never observed.
\<close>

definition uninitialised :: "nat \<Rightarrow> byte list" where
  "uninitialised n = replicate n 0"

lemma length_to_bytes: "length (to_bytes n w) = n"
  by (induction n arbitrary: w) simp_all

lemma byte_cons_bits:
  fixes w :: "'a::len word"
  shows "ucast (ucast w :: byte) OR push_bit 8 (take_bit m (drop_bit 8 w)) = take_bit (8 + m) w"
proof (rule bit_eqI)
  fix k
  assume "possible_bit TYPE('a word) k"
  show "bit (ucast (ucast w :: byte) OR push_bit 8 (take_bit m (drop_bit 8 w))) k
      = bit (take_bit (8 + m) w) k"
  proof (cases "k < 8")
    case True
    then show ?thesis by (auto simp add: bit_simps dest: bit_imp_le_length)
  next
    case False
    then have "8 + (k - 8) = k" by simp
    with False show ?thesis by (auto simp add: bit_simps dest: bit_imp_le_length)
  qed
qed

lemma from_to_bytes: "from_bytes (to_bytes n w) = take_bit (8 * n) w"
proof (induction n arbitrary: w)
  case 0
  show ?case by simp
next
  case (Suc n)
  show ?case by (simp add: Suc byte_cons_bits)
qed

lemma CopyBytes_whole: "length src = n \<Longrightarrow> length dst = n \<Longrightarrow> CopyBytes n src dst = src"
  by (simp add: CopyBytes_def)

lemma reinterpret_same_size:
  fixes w :: "'a::len word"
  assumes "LENGTH('a) = 8 * n"
  shows "(from_bytes (CopyBytes n (to_bytes n w) (uninitialised n)) :: 'a word) = w"
proof -
  have "CopyBytes n (to_bytes n w) (uninitialised n) = to_bytes n w"
    by (simp add: CopyBytes_whole length_to_bytes uninitialised_def)
  then show ?thesis
    using assms by (simp add: from_to_bytes take_bit_word_eq_self)
qed

section \<open>Logical operations\<close>

text \<open>
  The generic templates \<^verbatim>\<open>operator&\<close>, \<^verbatim>\<open>andnot\<close>, \<^verbatim>\<open>operator|\<close> and \<^verbatim>\<open>select\<close> act on the raw
  lane: \<^verbatim>\<open>scalar<T>(a.raw & b.raw)\<close>, \<^verbatim>\<open>scalar<T>(~a.raw & b.raw)\<close>, \<^verbatim>\<open>scalar<T>(a.raw | b.raw)\<close>.
  C++ promotes the operands first: an 8- or 16-bit lane becomes an \<^verbatim>\<open>int\<close> (by zero
  extension when \<open>T\<close> is unsigned, by sign extension when it is signed), a 32- or 64-bit
  lane stays as it is. The argument \<open>promote\<close> is that conversion; the constructor then
  narrows the result to \<open>T\<close>.
\<close>

definition band_T ::
  "('a::len word \<Rightarrow> 'p::len word) \<Rightarrow> 'a word scalar \<Rightarrow> 'a word scalar \<Rightarrow> 'a word scalar" where
  "band_T promote a b = scalar (ucast (promote (raw a) AND promote (raw b)))"

definition andnot_T ::
  "('a::len word \<Rightarrow> 'p::len word) \<Rightarrow> 'a word scalar \<Rightarrow> 'a word scalar \<Rightarrow> 'a word scalar" where
  "andnot_T promote a b = scalar (ucast (NOT (promote (raw a)) AND promote (raw b)))"

definition bor_T ::
  "('a::len word \<Rightarrow> 'p::len word) \<Rightarrow> 'a word scalar \<Rightarrow> 'a word scalar \<Rightarrow> 'a word scalar" where
  "bor_T promote a b = scalar (ucast (promote (raw a) OR promote (raw b)))"

text \<open>\<^verbatim>\<open>select(a, b, mask)\<close>: \<^verbatim>\<open>return (mask & b) | andnot(mask, a);\<close>\<close>

definition select_T ::
  "('a::len word \<Rightarrow> 'p::len word) \<Rightarrow> 'a word scalar \<Rightarrow> 'a word scalar \<Rightarrow> 'a word scalar
     \<Rightarrow> 'a word scalar" where
  "select_T promote a b mask_v =
     bor_T promote (band_T promote mask_v b) (andnot_T promote mask_v a)"

text \<open>
  \<^verbatim>\<open>BitwiseOp<Bits>\<close>, used by the \<^verbatim>\<open>float\<close> and \<^verbatim>\<open>double\<close> specialisations: the bytes of
  both lanes are copied into integers \<^verbatim>\<open>ia\<close>, \<^verbatim>\<open>ib\<close> of type \<^verbatim>\<open>Bits\<close>, \<^verbatim>\<open>op\<close> is applied, and the
  bytes of the result are copied into a \<open>T\<close>. The static assertion makes \<^verbatim>\<open>sizeof(T)\<close> equal
  to \<^verbatim>\<open>sizeof(Bits)\<close>.
\<close>

definition BitwiseOp ::
  "nat \<Rightarrow> ('b::len word \<Rightarrow> 'b word \<Rightarrow> 'b word) \<Rightarrow> 'a::len word scalar \<Rightarrow> 'a word scalar
     \<Rightarrow> 'a word scalar" where
  "BitwiseOp sizeof_Bits op a b =
     (let ia = from_bytes
                 (CopyBytes sizeof_Bits (to_bytes sizeof_Bits (raw a)) (uninitialised sizeof_Bits));
          ib = from_bytes
                 (CopyBytes sizeof_Bits (to_bytes sizeof_Bits (raw b)) (uninitialised sizeof_Bits));
          ia = op ia ib;
          ret = from_bytes
                  (CopyBytes sizeof_Bits (to_bytes sizeof_Bits ia) (uninitialised sizeof_Bits))
      in scalar ret)"

text \<open>The instances of \<^verbatim>\<open>andnot\<close> for the lane types.\<close>

definition andnot_u8 :: "uint8_t scalar \<Rightarrow> uint8_t scalar \<Rightarrow> uint8_t scalar" where
  "andnot_u8 = andnot_T (ucast :: uint8_t \<Rightarrow> c_int)"

definition andnot_u16 :: "uint16_t scalar \<Rightarrow> uint16_t scalar \<Rightarrow> uint16_t scalar" where
  "andnot_u16 = andnot_T (ucast :: uint16_t \<Rightarrow> c_int)"

definition andnot_u32 :: "uint32_t scalar \<Rightarrow> uint32_t scalar \<Rightarrow> uint32_t scalar" where
  "andnot_u32 = andnot_T (\<lambda>x :: uint32_t. x)"

definition andnot_u64 :: "uint64_t scalar \<Rightarrow> uint64_t scalar \<Rightarrow> uint64_t scalar" where
  "andnot_u64 = andnot_T (\<lambda>x :: uint64_t. x)"

definition andnot_i8 :: "int8_t scalar \<Rightarrow> int8_t scalar \<Rightarrow> int8_t scalar" where
  "andnot_i8 = andnot_T (scast :: int8_t \<Rightarrow> c_int)"

definition andnot_i16 :: "int16_t scalar \<Rightarrow> int16_t scalar \<Rightarrow> int16_t scalar" where
  "andnot_i16 = andnot_T (scast :: int16_t \<Rightarrow> c_int)"

definition andnot_i32 :: "int32_t scalar \<Rightarrow> int32_t scalar \<Rightarrow> int32_t scalar" where
  "andnot_i32 = andnot_T (\<lambda>x :: int32_t. x)"

definition andnot_i64 :: "int64_t scalar \<Rightarrow> int64_t scalar \<Rightarrow> int64_t scalar" where
  "andnot_i64 = andnot_T (\<lambda>x :: int64_t. x)"

text \<open>
  \<^verbatim>\<open>BitwiseOp<int32_t>()(a, b, [](int32_t i, int32_t j) { return ~i & j; })\<close> for \<^verbatim>\<open>float\<close>,
  and the same with \<^verbatim>\<open>int64_t\<close> for \<^verbatim>\<open>double\<close>; likewise \<^verbatim>\<open>i & j\<close> and \<^verbatim>\<open>i | j\<close>.
\<close>

definition andnot_f32 :: "32 word scalar \<Rightarrow> 32 word scalar \<Rightarrow> 32 word scalar" where
  "andnot_f32 = BitwiseOp 4 (\<lambda>i j :: int32_t. NOT i AND j)"

definition andnot_f64 :: "64 word scalar \<Rightarrow> 64 word scalar \<Rightarrow> 64 word scalar" where
  "andnot_f64 = BitwiseOp 8 (\<lambda>i j :: int64_t. NOT i AND j)"

definition band_f32 :: "32 word scalar \<Rightarrow> 32 word scalar \<Rightarrow> 32 word scalar" where
  "band_f32 = BitwiseOp 4 (\<lambda>i j :: int32_t. i AND j)"

definition band_f64 :: "64 word scalar \<Rightarrow> 64 word scalar \<Rightarrow> 64 word scalar" where
  "band_f64 = BitwiseOp 8 (\<lambda>i j :: int64_t. i AND j)"

definition bor_f32 :: "32 word scalar \<Rightarrow> 32 word scalar \<Rightarrow> 32 word scalar" where
  "bor_f32 = BitwiseOp 4 (\<lambda>i j :: int32_t. i OR j)"

definition bor_f64 :: "64 word scalar \<Rightarrow> 64 word scalar \<Rightarrow> 64 word scalar" where
  "bor_f64 = BitwiseOp 8 (\<lambda>i j :: int64_t. i OR j)"

text \<open>The instances of \<^verbatim>\<open>select\<close>.\<close>

definition select_u8 ::
  "uint8_t scalar \<Rightarrow> uint8_t scalar \<Rightarrow> uint8_t scalar \<Rightarrow> uint8_t scalar" where
  "select_u8 = select_T (ucast :: uint8_t \<Rightarrow> c_int)"

definition select_u16 ::
  "uint16_t scalar \<Rightarrow> uint16_t scalar \<Rightarrow> uint16_t scalar \<Rightarrow> uint16_t scalar" where
  "select_u16 = select_T (ucast :: uint16_t \<Rightarrow> c_int)"

definition select_u32 ::
  "uint32_t scalar \<Rightarrow> uint32_t scalar \<Rightarrow> uint32_t scalar \<Rightarrow> uint32_t scalar" where
  "select_u32 = select_T (\<lambda>x :: uint32_t. x)"

definition select_u64 ::
  "uint64_t scalar \<Rightarrow> uint64_t scalar \<Rightarrow> uint64_t scalar \<Rightarrow> uint64_t scalar" where
  "select_u64 = select_T (\<lambda>x :: uint64_t. x)"

definition select_i8 ::
  "int8_t scalar \<Rightarrow> int8_t scalar \<Rightarrow> int8_t scalar \<Rightarrow> int8_t scalar" where
  "select_i8 = select_T (scast :: int8_t \<Rightarrow> c_int)"

definition select_i16 ::
  "int16_t scalar \<Rightarrow> int16_t scalar \<Rightarrow> int16_t scalar \<Rightarrow> int16_t scalar" where
  "select_i16 = select_T (scast :: int16_t \<Rightarrow> c_int)"

definition select_i32 ::
  "int32_t scalar \<Rightarrow> int32_t scalar \<Rightarrow> int32_t scalar \<Rightarrow> int32_t scalar" where
  "select_i32 = select_T (\<lambda>x :: int32_t. x)"

definition select_i64 ::
  "int64_t scalar \<Rightarrow> int64_t scalar \<Rightarrow> int64_t scalar \<Rightarrow> int64_t scalar" where
  "select_i64 = select_T (\<lambda>x :: int64_t. x)"

definition select_f32 ::
  "32 word scalar \<Rightarrow> 32 word scalar \<Rightarrow> 32 word scalar \<Rightarrow> 32 word scalar" where
  "select_f32 a b mask_v = bor_f32 (band_f32 mask_v b) (andnot_f32 mask_v a)"

definition select_f64 ::
  "64 word scalar \<Rightarrow> 64 word scalar \<Rightarrow> 64 word scalar \<Rightarrow> 64 word scalar" where
  "select_f64 a b mask_v = bor_f64 (band_f64 mask_v b) (andnot_f64 mask_v a)"

text \<open>
  What the two claims say of an operation on lanes: \<open>complements_first f\<close> holds when
  \<open>f a b\<close> is the AND of the complement of \<open>a\<close> with \<open>b\<close>; \<open>selects_by_mask sel\<close> when
  \<open>sel a b m\<close> is \<open>a\<close> for the mask of all zero bits, \<open>b\<close> for the mask of all one bits,
  and always \<open>(m & b) | (~m & a)\<close>.
\<close>

definition complements_first ::
  "('a::len word scalar \<Rightarrow> 'a word scalar \<Rightarrow> 'a word scalar) \<Rightarrow> bool" where
  "complements_first f = (\<forall>a b. raw (f a b) = NOT (raw a) AND raw b)"

definition selects_by_mask ::
  "('a::len word scalar \<Rightarrow> 'a word scalar \<Rightarrow> 'a word scalar \<Rightarrow> 'a word scalar) \<Rightarrow> bool" where
  "selects_by_mask sel =
     (\<forall>a b m. sel a b (scalar 0) = a \<and> sel a b (scalar (- 1)) = b
        \<and> raw (sel a b m) = (raw m AND raw b) OR (NOT (raw m) AND raw a))"

subsection \<open>Promotion keeps the bits of the lane\<close>

definition keeps_bits :: "('a::len word \<Rightarrow> 'p::len word) \<Rightarrow> bool" where
  "keeps_bits p = (\<forall>x n. n < LENGTH('a) \<longrightarrow> bit (p x) n = bit x n)"

lemma keeps_bits_ucast:
  "LENGTH('a::len) \<le> LENGTH('p::len) \<Longrightarrow> keeps_bits (ucast :: 'a word \<Rightarrow> 'p word)"
  by (auto simp add: keeps_bits_def bit_simps)

lemma keeps_bits_scast:
  "LENGTH('a::len) \<le> LENGTH('p::len) \<Longrightarrow> keeps_bits (scast :: 'a word \<Rightarrow> 'p word)"
  unfolding keeps_bits_def
proof (intro allI impI)
  fix x :: "'a word" and n
  assume le: "LENGTH('a) \<le> LENGTH('p)" and n: "n < LENGTH('a)"
  then have "min (LENGTH('a) - Suc 0) n = n" and "n < LENGTH('p)" by simp_all
  then show "bit (scast x :: 'p word) n = bit x n"
    by (simp add: bit_simps)
qed

lemma keeps_bits_id: "keeps_bits (\<lambda>x :: 'a::len word. x)"
  by (simp add: keeps_bits_def)

lemma andnot_T_bits:
  assumes "keeps_bits (p :: 'a::len word \<Rightarrow> 'p::len word)"
  shows "raw (andnot_T p a b) = NOT (raw a) AND raw b"
  using assms unfolding andnot_T_def keeps_bits_def scalar.sel
  by (intro bit_eqI) (auto simp add: bit_simps dest: bit_imp_le_length)

lemma band_T_bits:
  assumes "keeps_bits (p :: 'a::len word \<Rightarrow> 'p::len word)"
  shows "raw (band_T p a b) = raw a AND raw b"
  using assms unfolding band_T_def keeps_bits_def scalar.sel
  by (intro bit_eqI) (auto simp add: bit_simps dest: bit_imp_le_length)

lemma bor_T_bits:
  assumes "keeps_bits (p :: 'a::len word \<Rightarrow> 'p::len word)"
  shows "raw (bor_T p a b) = raw a OR raw b"
  using assms unfolding bor_T_def keeps_bits_def scalar.sel
  by (intro bit_eqI) (auto simp add: bit_simps dest: bit_imp_le_length)

lemma BitwiseOp_bits:
  fixes a b :: "'a::len word scalar"
  assumes "LENGTH('a) = 8 * n"
  shows "raw (BitwiseOp n op a b) = op (raw a) (raw b)"
  using assms by (simp add: BitwiseOp_def Let_def reinterpret_same_size)

lemma complements_first_T:
  "keeps_bits (p :: 'a::len word \<Rightarrow> 'p::len word) \<Longrightarrow> complements_first (andnot_T p)"
  by (simp add: complements_first_def andnot_T_bits)

lemma select_T_raw:
  assumes "keeps_bits (p :: 'a::len word \<Rightarrow> 'p::len word)"
  shows "raw (select_T p a b m) = (raw m AND raw b) OR (NOT (raw m) AND raw a)"
  using assms by (simp add: select_T_def bor_T_bits band_T_bits andnot_T_bits)

lemma selects_by_mask_raw:
  assumes "\<And>a b m. raw (sel a b m) = (raw m AND raw b) OR (NOT (raw m) AND raw a)"
  shows "selects_by_mask sel"
  unfolding selects_by_mask_def
proof (intro allI conjI)
  fix a b m :: "'a word scalar"
  show "sel a b (scalar 0) = a"
    by (rule scalar.expand) (simp add: assms)
  show "sel a b (scalar (- 1)) = b"
    by (rule scalar.expand) (simp add: assms)
  show "raw (sel a b m) = (raw m AND raw b) OR (NOT (raw m) AND raw a)"
    by (rule assms)
qed

lemma selects_by_mask_T:
  "keeps_bits (p :: 'a::len word \<Rightarrow> 'p::len word) \<Longrightarrow> selects_by_mask (select_T p)"
  by (rule selects_by_mask_raw) (rule select_T_raw)

text \<open>
  Claim C10. For every lane type (the integer lanes directly, \<^verbatim>\<open>float\<close> and \<^verbatim>\<open>double\<close> through
  their bit patterns) and all lanes \<open>a\<close>, \<open>b\<close>, \<open>andnot a b\<close> is the bitwise AND of the
  complement of the first argument with the second, \<open>(~a) & b\<close>: the first operand is
  the complemented one, as \<open>andnot 0xF0 0xFF = 0x0F\<close> and \<open>andnot 0xFF 0xF0 = 0\<close> show.
\<close>

theorem andnot_complements_first:
  "complements_first andnot_u8 \<and> complements_first andnot_u16
   \<and> complements_first andnot_u32 \<and> complements_first andnot_u64
   \<and> complements_first andnot_i8 \<and> complements_first andnot_i16
   \<and> complements_first andnot_i32 \<and> complements_first andnot_i64
   \<and> complements_first andnot_f32 \<and> complements_first andnot_f64
   \<and> andnot_u8 (scalar 0xF0) (scalar 0xFF) = scalar 0x0F
   \<and> andnot_u8 (scalar 0xFF) (scalar 0xF0) = scalar 0"
proof -
  have f32: "complements_first andnot_f32"
    by (simp add: complements_first_def andnot_f32_def BitwiseOp_bits)
  have f64: "complements_first andnot_f64"
    by (simp add: complements_first_def andnot_f64_def BitwiseOp_bits)
  have ex: "andnot_u8 (scalar 0xF0) (scalar 0xFF) = scalar 0x0F"
      "andnot_u8 (scalar 0xFF) (scalar 0xF0) = scalar 0"
    by (rule scalar.expand; simp add: andnot_u8_def andnot_T_bits keeps_bits_ucast)+
  show ?thesis
    unfolding andnot_u8_def andnot_u16_def andnot_u32_def andnot_u64_def
      andnot_i8_def andnot_i16_def andnot_i32_def andnot_i64_def
    using f32 f64 ex[unfolded andnot_u8_def]
    by (simp add: complements_first_T keeps_bits_ucast keeps_bits_scast keeps_bits_id)
qed

text \<open>
  Claim C8. For every lane type and all lanes \<open>a\<close>, \<open>b\<close>, \<open>select a b mask\<close> returns \<open>a\<close>
  when the mask has all bits zero and \<open>b\<close> when it has all bits one, and its value is
  \<open>(mask & b) | andnot(mask, a)\<close>.
\<close>

theorem select_by_mask:
  "selects_by_mask select_u8 \<and> selects_by_mask select_u16
   \<and> selects_by_mask select_u32 \<and> selects_by_mask select_u64
   \<and> selects_by_mask select_i8 \<and> selects_by_mask select_i16
   \<and> selects_by_mask select_i32 \<and> selects_by_mask select_i64
   \<and> selects_by_mask select_f32 \<and> selects_by_mask select_f64"
proof -
  have f32: "selects_by_mask select_f32"
    by (rule selects_by_mask_raw)
      (simp add: select_f32_def bor_f32_def band_f32_def andnot_f32_def BitwiseOp_bits)
  have f64: "selects_by_mask select_f64"
    by (rule selects_by_mask_raw)
      (simp add: select_f64_def bor_f64_def band_f64_def andnot_f64_def BitwiseOp_bits)
  show ?thesis
    unfolding select_u8_def select_u16_def select_u32_def select_u64_def
      select_i8_def select_i16_def select_i32_def select_i64_def
    using f32 f64
    by (simp add: selects_by_mask_T keeps_bits_ucast keeps_bits_scast keeps_bits_id)
qed

section \<open>Zip\<close>

text \<open>
  \<^verbatim>\<open>scalar<uint16_t>((uint32_t(b.raw) << 8) + a.raw)\<close> and its five siblings. The cast
  \<^verbatim>\<open>uint32_t(b.raw)\<close> (or \<^verbatim>\<open>uint64_t(b.raw)\<close>) zero-extends an unsigned lane and sign-extends a
  signed one. The second operand \<^verbatim>\<open>a.raw\<close> is converted to the type of the first by the
  usual arithmetic conversions: an unsigned lane is zero-extended, a signed lane is
  sign-extended (its value is kept modulo \<open>2^32\<close> or \<open>2^64\<close>). The sum wraps in the unsigned
  type, and the constructor keeps its low bits.
\<close>

definition zip_lo_u8 :: "uint8_t scalar \<Rightarrow> uint8_t scalar \<Rightarrow> uint16_t scalar" where
  "zip_lo_u8 a b = scalar (ucast (push_bit 8 (ucast (raw b) :: uint32_t) + ucast (raw a)))"

definition zip_lo_u16 :: "uint16_t scalar \<Rightarrow> uint16_t scalar \<Rightarrow> uint32_t scalar" where
  "zip_lo_u16 a b = scalar (push_bit 16 (ucast (raw b) :: uint32_t) + ucast (raw a))"

definition zip_lo_u32 :: "uint32_t scalar \<Rightarrow> uint32_t scalar \<Rightarrow> uint64_t scalar" where
  "zip_lo_u32 a b = scalar (push_bit 32 (ucast (raw b) :: uint64_t) + ucast (raw a))"

definition zip_lo_i8 :: "int8_t scalar \<Rightarrow> int8_t scalar \<Rightarrow> int16_t scalar" where
  "zip_lo_i8 a b = scalar (ucast (push_bit 8 (scast (raw b) :: uint32_t) + scast (raw a)))"

definition zip_lo_i16 :: "int16_t scalar \<Rightarrow> int16_t scalar \<Rightarrow> int32_t scalar" where
  "zip_lo_i16 a b = scalar (push_bit 16 (scast (raw b) :: uint32_t) + scast (raw a))"

definition zip_lo_i32 :: "int32_t scalar \<Rightarrow> int32_t scalar \<Rightarrow> int64_t scalar" where
  "zip_lo_i32 a b = scalar (push_bit 32 (scast (raw b) :: uint64_t) + scast (raw a))"

text \<open>\<^verbatim>\<open>zip_hi(a, b)\<close> returns \<^verbatim>\<open>zip_lo(a, b)\<close>, the overload for the lane type.\<close>

definition zip_hi :: "('a scalar \<Rightarrow> 'a scalar \<Rightarrow> 'b scalar) \<Rightarrow> 'a scalar \<Rightarrow> 'a scalar \<Rightarrow> 'b scalar" where
  "zip_hi zip_lo a b = zip_lo a b"

text \<open>
  The value the claim describes: the double-width word whose low half holds the bits of
  \<open>a\<close> and whose high half holds the bits of \<open>b\<close>, \<open>(b << width) | a\<close>.
\<close>

definition interleaved :: "'a::len word \<Rightarrow> 'a word \<Rightarrow> 'b::len word" where
  "interleaved a b = push_bit LENGTH('a) (ucast b) OR ucast a"

lemma zip_lo_u8_interleaved: "raw (zip_lo_u8 a b) = interleaved (raw a) (raw b)"
proof -
  have "push_bit 8 (ucast (raw b) :: uint32_t) + ucast (raw a)
      = push_bit 8 (ucast (raw b) :: uint32_t) OR ucast (raw a)"
    by (rule disjunctive_add) (auto simp add: bit_simps dest: bit_imp_le_length)
  then show ?thesis
    unfolding zip_lo_u8_def interleaved_def scalar.sel
    by (intro bit_eqI) (auto simp add: bit_simps)
qed

lemma zip_lo_u16_interleaved: "raw (zip_lo_u16 a b) = interleaved (raw a) (raw b)"
proof -
  have "push_bit 16 (ucast (raw b) :: uint32_t) + ucast (raw a)
      = push_bit 16 (ucast (raw b) :: uint32_t) OR ucast (raw a)"
    by (rule disjunctive_add) (auto simp add: bit_simps dest: bit_imp_le_length)
  then show ?thesis
    unfolding zip_lo_u16_def interleaved_def scalar.sel
    by simp
qed

lemma zip_lo_u32_interleaved: "raw (zip_lo_u32 a b) = interleaved (raw a) (raw b)"
proof -
  have "push_bit 32 (ucast (raw b) :: uint64_t) + ucast (raw a)
      = push_bit 32 (ucast (raw b) :: uint64_t) OR ucast (raw a)"
    by (rule disjunctive_add) (auto simp add: bit_simps dest: bit_imp_le_length)
  then show ?thesis
    unfolding zip_lo_u32_def interleaved_def scalar.sel
    by simp
qed


lemma zip_lo_u8_scenario: "zip_lo_u8 (scalar 0x12) (scalar 0x34) = scalar 0x3412"
  by (simp add: zip_lo_u8_def)

text \<open>
  Claim C4 (the code departs from it). On the unsigned lanes \<open>zip_lo\<close> is the interleaving,
  and \<open>zip_lo 0x12 0x34 = 0x3412\<close> (the three lemmas above and \<open>zip_lo_u8_scenario\<close>). On
  the signed lanes the first argument is sign-extended before the addition, so a
  negative \<open>a\<close> borrows from the high half: for \<open>a = -1\<close> and \<open>b = 0x34\<close> the int8 overload
  returns \<open>0x33FF\<close> where the interleaving is \<open>0x34FF\<close>, and the int16 and int32 overloads
  fail the same way.
\<close>

theorem zip_lo_signed_sign_extends_low:
  "zip_lo_i8 (scalar (- 1)) (scalar 0x34) = scalar 0x33FF
   \<and> interleaved (- 1 :: int8_t) (0x34 :: int8_t) = (0x34FF :: int16_t)
   \<and> zip_lo_i16 (scalar (- 1)) (scalar 0x34) = scalar 0x33FFFF
   \<and> interleaved (- 1 :: int16_t) (0x34 :: int16_t) = (0x34FFFF :: int32_t)
   \<and> zip_lo_i32 (scalar (- 1)) (scalar 0x34) = scalar 0x33FFFFFFFF
   \<and> interleaved (- 1 :: int32_t) (0x34 :: int32_t) = (0x34FFFFFFFF :: int64_t)"
  by (simp add: zip_lo_i8_def zip_lo_i16_def zip_lo_i32_def interleaved_def unsigned_minus_1_eq_mask mask_eq_exp_minus_1)

section \<open>IEEE 754 bit patterns\<close>

text \<open>
  A \<^verbatim>\<open>float\<close> or \<^verbatim>\<open>double\<close> lane is held as its bit pattern. Its meaning is the one of
  IEEE 754: with \<open>mb\<close> fraction bits and \<open>eb\<close> exponent bits (23 and 8 for binary32, 52
  and 11 for binary64) the top bit is the sign, the next \<open>eb\<close> bits the biased exponent
  \<open>e\<close> and the low \<open>mb\<close> bits the fraction \<open>f\<close>. An all-ones exponent is an infinity
  (\<open>f = 0\<close>) or a NaN; \<open>e = 0\<close> is a zero or a subnormal of value
  \<open>f * 2^(1 - bias - mb)\<close>; otherwise the value is \<open>(2^mb + f) * 2^(e - bias - mb)\<close>.
  \<open>Infinity s\<close> is the negative infinity when \<open>s\<close> holds.
\<close>

datatype fp_value = NaN | Infinity bool | Finite real

definition sign_bit :: "nat \<Rightarrow> nat \<Rightarrow> 'a::len word \<Rightarrow> bool" where
  "sign_bit mb eb w = bit w (mb + eb)"

definition biased_exponent :: "nat \<Rightarrow> nat \<Rightarrow> 'a::len word \<Rightarrow> nat" where
  "biased_exponent mb eb w = unat (take_bit eb (drop_bit mb w))"

definition fraction :: "nat \<Rightarrow> 'a::len word \<Rightarrow> nat" where
  "fraction mb w = unat (take_bit mb w)"

definition bias :: "nat \<Rightarrow> nat" where
  "bias eb = 2 ^ (eb - 1) - 1"

definition valof :: "nat \<Rightarrow> nat \<Rightarrow> 'a::len word \<Rightarrow> fp_value" where
  "valof mb eb w =
     (let s = sign_bit mb eb w; e = biased_exponent mb eb w; f = fraction mb w in
      if e = 2 ^ eb - 1 then (if f = 0 then Infinity s else NaN)
      else Finite ((if s then - 1 else 1)
                   * (if e = 0 then 2 * real f else real (2 ^ mb + f) * 2 ^ e)
                   / 2 ^ (bias eb + mb)))"

text \<open>
  The comparisons \<^verbatim>\<open><\<close>, \<^verbatim>\<open><=\<close> and \<^verbatim>\<open>==\<close> of C++ on floating-point values: every
  comparison with a NaN is false, and the two zeros are equal.
\<close>

fun fp_less :: "fp_value \<Rightarrow> fp_value \<Rightarrow> bool" where
  "fp_less NaN _ = False"
| "fp_less _ NaN = False"
| "fp_less (Infinity s) (Infinity t) = (s \<and> \<not> t)"
| "fp_less (Infinity s) (Finite y) = s"
| "fp_less (Finite x) (Infinity t) = (\<not> t)"
| "fp_less (Finite x) (Finite y) = (x < y)"

fun fp_le :: "fp_value \<Rightarrow> fp_value \<Rightarrow> bool" where
  "fp_le NaN _ = False"
| "fp_le _ NaN = False"
| "fp_le (Infinity s) (Infinity t) = (s \<or> \<not> t)"
| "fp_le (Infinity s) (Finite y) = s"
| "fp_le (Finite x) (Infinity t) = (\<not> t)"
| "fp_le (Finite x) (Finite y) = (x \<le> y)"

fun fp_eq :: "fp_value \<Rightarrow> fp_value \<Rightarrow> bool" where
  "fp_eq NaN _ = False"
| "fp_eq _ NaN = False"
| "fp_eq (Infinity s) (Infinity t) = (s = t)"
| "fp_eq (Infinity s) (Finite y) = False"
| "fp_eq (Finite x) (Infinity t) = False"
| "fp_eq (Finite x) (Finite y) = (x = y)"

section \<open>Mask extraction\<close>

text \<open>
  \<^verbatim>\<open>movemask(const scalar<uint8_t> v) { return v.raw >> 7; }\<close> shifts the promoted \<^verbatim>\<open>int\<close>;
  the \<^verbatim>\<open>float\<close> and \<^verbatim>\<open>double\<close> overloads return \<^verbatim>\<open>v.raw < 0.0f\<close> and \<^verbatim>\<open>v.raw < 0.0\<close>, the
  \<^verbatim>\<open>bool\<close> converted to \<^verbatim>\<open>uint32_t\<close>. The literal \<^verbatim>\<open>0.0\<close> has the all-zero bit pattern.
\<close>

definition movemask_u8 :: "uint8_t scalar \<Rightarrow> uint32_t" where
  "movemask_u8 v = ucast (signed_drop_bit 7 (ucast (raw v) :: c_int))"

definition movemask_f32 :: "32 word scalar \<Rightarrow> uint32_t" where
  "movemask_f32 v = (if fp_less (valof 23 8 (raw v)) (valof 23 8 (0 :: 32 word)) then 1 else 0)"

definition movemask_f64 :: "64 word scalar \<Rightarrow> uint32_t" where
  "movemask_f64 v = (if fp_less (valof 52 11 (raw v)) (valof 52 11 (0 :: 64 word)) then 1 else 0)"

lemma movemask_u8_top: "movemask_u8 v = (if bit (raw v) 7 then 1 else 0)"
proof -
  have top: "bit (raw v) (7 + n) \<longleftrightarrow> n = 0 \<and> bit (raw v) 7" for n
    by (cases n) (auto dest: bit_imp_le_length)
  show ?thesis
    unfolding movemask_u8_def
    by (intro bit_eqI) (auto simp add: bit_simps bit_signed_drop_bit_iff top dest: bit_imp_le_length)
qed

text \<open>
  Claim C7 (the code departs from it). For a uint8 lane \<open>movemask\<close> is bit 7 (lemma
  \<open>movemask_u8_top\<close>). For a \<^verbatim>\<open>float\<close> or \<^verbatim>\<open>double\<close> lane it is the comparison with zero,
  not the sign bit: on \<open>-0.0\<close> (bit pattern \<open>0x80000000\<close>) and on the all-ones pattern
  that a true comparison yields (a NaN with the sign bit set) the sign bit is 1 and
  \<open>movemask\<close> returns 0.
\<close>

theorem movemask_float_misses_sign_bit:
  "movemask_f32 (scalar 0x80000000) = 0 \<and> sign_bit 23 8 (0x80000000 :: 32 word)
   \<and> movemask_f32 (scalar 0xFFFFFFFF) = 0 \<and> sign_bit 23 8 (0xFFFFFFFF :: 32 word)
   \<and> movemask_f64 (scalar 0x8000000000000000) = 0
   \<and> sign_bit 52 11 (0x8000000000000000 :: 64 word)
   \<and> movemask_f64 (scalar 0xFFFFFFFFFFFFFFFF) = 0
   \<and> sign_bit 52 11 (0xFFFFFFFFFFFFFFFF :: 64 word)"
  by (simp add: movemask_f32_def movemask_f64_def valof_def sign_bit_def biased_exponent_def
      fraction_def bias_def)

section \<open>Cast\<close>

text \<open>
  \<^verbatim>\<open>static_assert(sizeof(T) <= sizeof(FromT), "Promoting is undefined"); T to;\<close>
  \<^verbatim>\<open>CopyBytes<sizeof(FromT)>(&v.raw, &to); return scalar<T>(to);\<close> A failed static assertion
  rejects the instantiation at compile time. \<open>v\<close> is the object representation of
  \<^verbatim>\<open>v.raw\<close>, so \<^verbatim>\<open>sizeof(FromT)\<close> is its length; \<open>frame\<close> is the memory that starts at the local
  \<^verbatim>\<open>to\<close>: its first \<^verbatim>\<open>sizeof(T)\<close> bytes are \<^verbatim>\<open>to\<close>, the rest is whatever follows \<^verbatim>\<open>to\<close>. The
  result is the object representation of the returned lane together with the memory
  that follows \<^verbatim>\<open>to\<close> after the copy.
\<close>

datatype error = Static_assert_failed | Assert_failed | Invalid_access | Invalid_free

definition cast_to :: "nat \<Rightarrow> byte list \<Rightarrow> byte list \<Rightarrow> error + byte list \<times> byte list" where
  "cast_to sizeof_T v frame =
     (if \<not> sizeof_T \<le> length v then Inl Static_assert_failed
      else let frame = CopyBytes (length v) v frame
           in Inr (take sizeof_T frame, drop sizeof_T frame))"

lemma cast_to_rejects_promotion:
  "length v < sizeof_T \<Longrightarrow> cast_to sizeof_T v frame = Inl Static_assert_failed"
  by (simp add: cast_to_def)

lemma cast_to_value:
  "sizeof_T \<le> length v \<Longrightarrow> \<exists>rest. cast_to sizeof_T v frame = Inr (take sizeof_T v, rest)"
  by (simp add: cast_to_def CopyBytes_def Let_def)

lemma to_bytes_4:
  "to_bytes 4 w = [ucast w, ucast (drop_bit 8 w), ucast (drop_bit 16 w), ucast (drop_bit 24 w)]"
proof -
  have eq: "(4::nat) = Suc (Suc (Suc (Suc 0)))" by simp
  show ?thesis unfolding eq by (simp add: drop_bit_drop_bit)
qed

text \<open>
  Claim C6 (the code departs from it). The value returned is made of the low
  \<^verbatim>\<open>sizeof(T)\<close> bytes of the source and a promoting cast is rejected (the lemmas above), but
  the copy is of \<^verbatim>\<open>sizeof(FromT)\<close> bytes, not of \<^verbatim>\<open>sizeof(T)\<close>: casting the uint32 lane
  \<open>0x11223344\<close> to uint8, with \<^verbatim>\<open>to\<close> holding \<open>0xAA\<close> and followed in memory by the bytes
  \<open>0xBB 0xCC 0xDD\<close>, returns \<open>0x44\<close> and overwrites the three bytes after \<^verbatim>\<open>to\<close>.
\<close>

theorem cast_to_copies_sizeof_source:
  "cast_to 1 (to_bytes 4 (0x11223344 :: uint32_t)) [0xAA, 0xBB, 0xCC, 0xDD]
     = Inr ([0x44], [0x33, 0x22, 0x11])"
  by (simp add: cast_to_def CopyBytes_def to_bytes_4)

section \<open>Cache-aligned allocation (cache_aligned.h)\<close>

text \<open>
  On the 64-bit targets of the library \<^verbatim>\<open>size_t\<close>, \<^verbatim>\<open>uintptr_t\<close> and pointers have 64 bits, and
  \<^verbatim>\<open>kPointerSize = sizeof(void*)\<close> is 8. An address is a 64-bit word, the null pointer is 0.
  The heap is the byte store together with the blocks that the underlying allocator has
  handed out and not yet taken back, each with its base address and its size.
\<close>

type_synonym addr = "64 word"

record heap =
  memory :: "addr \<Rightarrow> byte"
  blocks :: "(addr \<times> uint64_t) list"

definition kPointerSize :: "64 word" where "kPointerSize = 8"
definition kCacheLineSize :: "64 word" where "kCacheLineSize = 64"

text \<open>
  An access to \<open>n\<close> bytes at \<open>a\<close> is defined when it lies inside a live block; any other
  access is undefined behaviour, rendered as the error \<open>Invalid_access\<close>.
\<close>

definition in_block :: "addr \<Rightarrow> nat \<Rightarrow> addr \<times> uint64_t \<Rightarrow> bool" where
  "in_block a n blk = (unat (fst blk) \<le> unat a \<and> unat a + n \<le> unat (fst blk) + unat (snd blk))"

definition accessible :: "heap \<Rightarrow> addr \<Rightarrow> nat \<Rightarrow> bool" where
  "accessible h a n = list_ex (in_block a n) (blocks h)"

text \<open>\<^verbatim>\<open>memcpy\<close> to and from the heap, byte by byte at increasing addresses.\<close>

fun store_bytes :: "addr \<Rightarrow> byte list \<Rightarrow> (addr \<Rightarrow> byte) \<Rightarrow> (addr \<Rightarrow> byte)" where
  "store_bytes a [] m = m"
| "store_bytes a (b # bs) m = store_bytes (a + 1) bs (m(a := b))"

fun load_bytes :: "nat \<Rightarrow> addr \<Rightarrow> (addr \<Rightarrow> byte) \<Rightarrow> byte list" where
  "load_bytes 0 a m = []"
| "load_bytes (Suc n) a m = m a # load_bytes n (a + 1) m"

definition memcpy_to :: "addr \<Rightarrow> byte list \<Rightarrow> heap \<Rightarrow> error + heap" where
  "memcpy_to dst bs h =
     (if accessible h dst (length bs) then Inr (h\<lparr>memory := store_bytes dst bs (memory h)\<rparr>)
      else Inl Invalid_access)"

definition memcpy_from :: "addr \<Rightarrow> nat \<Rightarrow> heap \<Rightarrow> error + byte list" where
  "memcpy_from src n h =
     (if accessible h src n then Inr (load_bytes n src (memory h)) else Inl Invalid_access)"

text \<open>
  The underlying allocator. What \<^verbatim>\<open>malloc\<close> answers is not decided by this code, so the
  answer is a parameter: \<open>malloc sz\<close> is the pointer returned for a request of \<open>sz\<close> bytes,
  0 when the allocation fails. \<open>malloc_block\<close> records the block handed out; \<^verbatim>\<open>free\<close> takes
  back a block that is live and is undefined on any other non-null pointer
  (\<open>Invalid_free\<close>).
\<close>

definition malloc_block :: "addr \<Rightarrow> uint64_t \<Rightarrow> heap \<Rightarrow> heap" where
  "malloc_block p sz h = (if p = 0 then h else h\<lparr>blocks := (p, sz) # blocks h\<rparr>)"

definition free :: "addr \<Rightarrow> heap \<Rightarrow> error + heap" where
  "free p h =
     (if p = 0 then Inr h
      else if p \<in> fst ` set (blocks h)
        then Inr (h\<lparr>blocks := filter (\<lambda>blk. fst blk \<noteq> p) (blocks h)\<rparr>)
      else Inl Invalid_free)"

text \<open>
  Modelled from the spec: \<^verbatim>\<open>PIK_ASSERT\<close> is defined in status.h, which is not among the
  sources; a failed assertion is fatal (it aborts), here the error \<open>Assert_failed\<close>.
\<close>

definition Allocate :: "(uint64_t \<Rightarrow> addr) \<Rightarrow> uint64_t \<Rightarrow> heap \<Rightarrow> error + addr \<times> heap" where
  "Allocate malloc bytes h =
     (if \<not> bytes < push_bit 63 1 then Inl Assert_failed
      else
        let allocated = malloc (bytes + kCacheLineSize);
            h = malloc_block allocated (bytes + kCacheLineSize) h
        in if allocated = 0 then Inr (0, h)
           else
             let misalignment = allocated AND (kCacheLineSize - 1)
             in if \<not> misalignment mod kPointerSize = 0 then Inl Assert_failed
                else
                  let aligned = allocated + kCacheLineSize - misalignment
                  in case memcpy_to (aligned - kPointerSize) (to_bytes 8 allocated) h of
                       Inl e \<Rightarrow> Inl e
                     | Inr h \<Rightarrow> Inr (aligned, h))"

definition Free :: "addr \<Rightarrow> heap \<Rightarrow> error + heap" where
  "Free aligned_pointer h =
     (if aligned_pointer = 0 then Inr h
      else
        let aligned = aligned_pointer
        in if \<not> aligned mod kCacheLineSize = 0 then Inl Assert_failed
           else case memcpy_from (aligned - kPointerSize) 8 h of
                  Inl e \<Rightarrow> Inl e
                | Inr bs \<Rightarrow>
                    let allocated = from_bytes bs :: addr
                    in if \<not> allocated \<le> aligned - kPointerSize then Inl Assert_failed
                       else if \<not> allocated \<ge> aligned - kCacheLineSize then Inl Assert_failed
                       else free allocated h)"

text \<open>
  What a successful \<^verbatim>\<open>malloc\<close> guarantees: the pointer is not null, it is aligned for any
  object (in particular for a pointer: the comment in \<^verbatim>\<open>Allocate\<close> relies on it), the block
  ends below the top of the address space, and the block is not one that is live
  already.
\<close>

definition malloc_ok :: "heap \<Rightarrow> uint64_t \<Rightarrow> addr \<Rightarrow> bool" where
  "malloc_ok h sz p =
     (p \<noteq> 0 \<and> unat p mod 8 = 0 \<and> unat p + unat sz < 2 ^ 64 \<and> p \<notin> fst ` set (blocks h))"

text \<open>A heap with no live block, for the concrete runs below.\<close>

definition empty_heap :: heap where
  "empty_heap = \<lparr>memory = (\<lambda>_. 0), blocks = []\<rparr>"

text \<open>
  The offset \<open>k\<close> by which the allocation is advanced: \<open>smallest_aligning_offset p k\<close> says
  that \<open>k\<close> is the least offset, zero included, that makes \<open>p + k\<close> a multiple of 64;
  \<open>smallest_positive_aligning_offset p k\<close> that it is the least one above zero.
\<close>

definition smallest_aligning_offset :: "addr \<Rightarrow> nat \<Rightarrow> bool" where
  "smallest_aligning_offset p k =
     ((unat p + k) mod 64 = 0 \<and> (\<forall>j<k. (unat p + j) mod 64 \<noteq> 0))"

definition smallest_positive_aligning_offset :: "addr \<Rightarrow> nat \<Rightarrow> bool" where
  "smallest_positive_aligning_offset p k =
     (0 < k \<and> (unat p + k) mod 64 = 0 \<and> (\<forall>j<k. 0 < j \<longrightarrow> (unat p + j) mod 64 \<noteq> 0))"

subsection \<open>Bytes written are the bytes read back\<close>

lemma store_bytes_other:
  "length bs \<le> unat (x - a) \<Longrightarrow> store_bytes a bs m x = m x"
proof (induction bs arbitrary: a m)
  case Nil
  show ?case by simp
next
  case (Cons b bs)
  from Cons.prems have pos: "0 < unat (x - a)" by simp
  then have ne: "x \<noteq> a" by auto
  have "x - a \<noteq> 0" using ne by simp
  then have "unat (x - a - 1) = unat (x - a) - 1"
    by (rule unat_minus_one)
  moreover have "x - (a + 1) = x - a - 1" by simp
  ultimately have "unat (x - (a + 1)) = unat (x - a) - 1"
    by (simp only:)
  then have "length bs \<le> unat (x - (a + 1))"
    using Cons.prems by simp
  then have "store_bytes (a + 1) bs (m(a := b)) x = (m(a := b)) x"
    by (rule Cons.IH)
  then show ?case using ne by simp
qed

lemma store_bytes_first:
  assumes "length bs < 2 ^ 64"
  shows "store_bytes a (b # bs) m a = b"
proof -
  have "unat (a - (a + 1)) = unat (- 1 :: 64 word)" by simp
  also have "\<dots> = 2 ^ 64 - 1" by (simp add: unsigned_minus_1_eq_mask mask_eq_exp_minus_1)
  finally have "length bs \<le> unat (a - (a + 1))" using assms by simp
  then have "store_bytes (a + 1) bs (m(a := b)) a = (m(a := b)) a"
    by (rule store_bytes_other)
  then show ?thesis by simp
qed

lemma load_store_bytes:
  "length bs \<le> 2 ^ 64 \<Longrightarrow> load_bytes (length bs) a (store_bytes a bs m) = bs"
proof (induction bs arbitrary: a m)
  case Nil
  show ?case by simp
next
  case (Cons b bs)
  then have lt: "length bs < 2 ^ 64" and le: "length bs \<le> 2 ^ 64" by simp_all
  have rest: "load_bytes (length bs) (a + 1) (store_bytes (a + 1) bs (m(a := b))) = bs"
    using le by (rule Cons.IH)
  have first: "store_bytes (a + 1) bs (m(a := b)) a = b"
    using store_bytes_first[OF lt, of a b m] by simp
  show ?case by (simp add: rest first)
qed

lemma header_round_trip:
  fixes p :: addr
  shows "from_bytes (load_bytes 8 a (store_bytes a (to_bytes 8 p) m)) = p"
proof -
  have "load_bytes (length (to_bytes 8 p)) a (store_bytes a (to_bytes 8 p) m) = to_bytes 8 p"
    by (rule load_store_bytes) (simp add: length_to_bytes)
  then have "load_bytes 8 a (store_bytes a (to_bytes 8 p) m) = to_bytes 8 p"
    by (simp add: length_to_bytes)
  then show ?thesis
    by (simp add: from_to_bytes take_bit_word_eq_self)
qed

subsection \<open>Address arithmetic\<close>

lemma unat_and_63: "unat ((p :: addr) AND 63) = unat p mod 64"
proof -
  have "(63 :: addr) = mask 6" by (simp add: mask_eq_exp_minus_1)
  then have "p AND 63 = take_bit 6 p" by (simp add: take_bit_eq_mask)
  then show ?thesis by (simp add: take_bit_eq_mod unat_mod)
qed

lemma unat_request:
  assumes "(bytes :: uint64_t) < push_bit 63 1"
  shows "unat (bytes + 64) = unat bytes + 64"
proof -
  have "unat bytes < 2 ^ 63"
    using assms by (simp add: word_less_nat_alt)
  then have "unat bytes + unat (64 :: uint64_t) < 2 ^ 64" by simp
  then show ?thesis
    using unat_add_lem[of bytes 64] by simp
qed

lemma aligned_arith:
  fixes p :: addr
  assumes al: "unat p mod 8 = 0" and top: "unat p + 64 < 2 ^ 64"
  defines "mis \<equiv> p AND 63"
  defines "aligned \<equiv> p + 64 - mis"
  shows "unat mis = unat p mod 64"
    and "mis mod 8 = 0"
    and "unat aligned = unat p + 64 - unat p mod 64"
    and "unat (aligned - 8) = unat p + 56 - unat p mod 64"
    and "unat (aligned - 64) = unat p - unat p mod 64"
    and "unat p mod 64 \<le> 56"
proof -
  show m: "unat mis = unat p mod 64"
    by (simp add: mis_def unat_and_63)
  have "unat p mod 64 mod 8 = 0"
    using al by (simp add: mod_mod_cancel)
  then show "mis mod 8 = 0"
    by (simp add: word_eq_iff_unsigned[where ?'a=nat] unat_mod m)
  show le: "unat p mod 64 \<le> 56"
    using al by presburger
  have p64: "unat (p + 64) = unat p + 64"
    using top unat_add_lem[of p 64] by simp
  have "mis \<le> p + 64"
    by (simp add: word_le_nat_alt p64 m trans_le_add1)
  then have "unat aligned = unat (p + 64) - unat mis"
    unfolding aligned_def by (rule unat_sub)
  then show a: "unat aligned = unat p + 64 - unat p mod 64"
    by (simp add: p64 m)
  have "8 \<le> aligned"
    using le by (simp add: word_le_nat_alt a)
  then have "unat (aligned - 8) = unat aligned - unat (8 :: addr)"
    by (rule unat_sub)
  then show "unat (aligned - 8) = unat p + 56 - unat p mod 64"
    using le by (simp add: a)
  have "64 \<le> aligned"
    using le by (simp add: word_le_nat_alt a)
  then have "unat (aligned - 64) = unat aligned - unat (64 :: addr)"
    by (rule unat_sub)
  then show "unat (aligned - 64) = unat p - unat p mod 64"
    by (simp add: a)
qed

subsection \<open>Allocate and Free\<close>

lemma Allocate_returns:
  assumes sz: "bytes < push_bit 63 1"
    and ok: "malloc_ok h (bytes + 64) (malloc (bytes + 64))"
  defines "p \<equiv> malloc (bytes + 64)"
  defines "aligned \<equiv> p + 64 - (p AND 63)"
  shows "Allocate malloc bytes h =
           Inr (aligned, h\<lparr>memory := store_bytes (aligned - 8) (to_bytes 8 p) (memory h),
                             blocks := (p, bytes + 64) # blocks h\<rparr>)"
proof -
  from ok have p0: "p \<noteq> 0" and al: "unat p mod 8 = 0"
    and top: "unat p + unat (bytes + 64) < 2 ^ 64"
    by (simp_all add: malloc_ok_def p_def)
  have req: "unat (bytes + 64) = unat bytes + 64"
    using sz by (rule unat_request)
  have top64: "unat p + 64 < 2 ^ 64"
    using top req by simp
  note ar = aligned_arith[OF al top64, folded aligned_def]
  have "m \<le> 56 \<Longrightarrow> m \<le> P \<Longrightarrow> P \<le> P + 56 - m \<and> P + 56 - m + 8 \<le> P + (B + 64)"
    for m P B :: nat by arith
  from this[OF ar(6) mod_less_eq_dividend]
  have acc: "in_block (aligned - 8) 8 (p, bytes + 64)"
    by (simp only: in_block_def ar(4) req fst_conv snd_conv)
  show ?thesis
    using p0 sz acc
    by (simp add: Allocate_def Let_def kCacheLineSize_def kPointerSize_def malloc_block_def
        memcpy_to_def accessible_def length_to_bytes ar(2) p_def[symmetric] aligned_def[symmetric])
qed

lemma Allocate_aligned:
  assumes sz: "bytes < push_bit 63 1"
    and ok: "malloc_ok h (bytes + 64) (malloc (bytes + 64))"
  defines "p \<equiv> malloc (bytes + 64)"
  defines "aligned \<equiv> p + 64 - (p AND 63)"
  shows "aligned \<noteq> 0" and "unat aligned mod 64 = 0" and "aligned mod 64 = 0"
proof -
  from ok have al: "unat p mod 8 = 0"
    and top: "unat p + unat (bytes + 64) < 2 ^ 64"
    by (simp_all add: malloc_ok_def p_def)
  have top64: "unat p + 64 < 2 ^ 64"
    using top unat_request[OF sz] by simp
  note ar = aligned_arith[OF al top64, folded aligned_def]
  have "P = 64 * d + m \<Longrightarrow> P + 64 - m = 64 * (d + 1)" for P d m :: nat by simp
  from this[of "unat p" "unat p div 64" "unat p mod 64"]
  have "unat aligned = 64 * (unat p div 64 + 1)"
    unfolding ar(3) by simp
  then show m: "unat aligned mod 64 = 0" by simp
  have "0 < unat aligned"
    unfolding ar(3) using ar(6) by simp
  then show "aligned \<noteq> 0" by auto
  show "aligned mod 64 = 0"
    using m by (simp add: word_eq_iff_unsigned[where ?'a=nat] unat_mod)
qed

lemma Free_after_Allocate:
  assumes sz: "bytes < push_bit 63 1"
    and ok: "malloc_ok h (bytes + 64) (malloc (bytes + 64))"
  defines "p \<equiv> malloc (bytes + 64)"
  defines "aligned \<equiv> p + 64 - (p AND 63)"
  defines "h' \<equiv> h\<lparr>memory := store_bytes (aligned - 8) (to_bytes 8 p) (memory h),
                     blocks := (p, bytes + 64) # blocks h\<rparr>"
  shows "Free aligned h' = Inr (h'\<lparr>blocks := blocks h\<rparr>)"
proof -
  from ok have p0: "p \<noteq> 0" and al: "unat p mod 8 = 0"
    and top: "unat p + unat (bytes + 64) < 2 ^ 64" and fresh: "p \<notin> fst ` set (blocks h)"
    by (simp_all add: malloc_ok_def p_def)
  have req: "unat (bytes + 64) = unat bytes + 64"
    using sz by (rule unat_request)
  have top64: "unat p + 64 < 2 ^ 64"
    using top req by simp
  note h' = h'_def
  note ar = aligned_arith[OF al top64, folded aligned_def]
  note aa = Allocate_aligned[of bytes h malloc, OF sz ok, folded p_def, folded aligned_def]
  have "m \<le> 56 \<Longrightarrow> m \<le> P \<Longrightarrow> P \<le> P + 56 - m \<and> P + 56 - m + 8 \<le> P + (B + 64)"
    for m P B :: nat by arith
  from this[OF ar(6) mod_less_eq_dividend]
  have acc: "in_block (aligned - 8) 8 (p, bytes + 64)"
    by (simp only: in_block_def ar(4) req fst_conv snd_conv)
  have hdr: "(from_bytes (load_bytes 8 (aligned - 8) (memory h')) :: addr) = p"
    by (simp add: h' header_round_trip)
  have le: "p \<le> aligned - 8"
    using ar(6) by (simp add: word_le_nat_alt ar(4))
  have ge: "aligned - 64 \<le> p"
    by (simp add: word_le_nat_alt ar(5))
  have keep: "filter (\<lambda>blk. fst blk \<noteq> p) (blocks h) = blocks h"
    using fresh by (auto simp add: filter_id_conv)
  have fr: "free p h' = Inr (h'\<lparr>blocks := blocks h\<rparr>)"
    using p0 by (simp add: free_def h' keep)
  have rd: "memcpy_from (aligned - 8) 8 h' = Inr (load_bytes 8 (aligned - 8) (memory h'))"
    using acc by (simp add: memcpy_from_def accessible_def h')
  show ?thesis
    using aa(1) aa(3) le ge
    by (simp add: Free_def Let_def kCacheLineSize_def kPointerSize_def rd hdr fr)
qed

lemma offset_smallest_positive:
  "smallest_positive_aligning_offset p (64 - unat p mod 64)"
  unfolding smallest_positive_aligning_offset_def
proof (intro conjI allI impI)
  let ?m = "unat p mod 64"
  have m: "?m < 64" by simp
  then show "0 < 64 - ?m" by simp
  have "P = 64 * d + r \<Longrightarrow> r < 64 \<Longrightarrow> P + (64 - r) = 64 * (d + 1)" for P d r :: nat
    by arith
  from this[of "unat p" "unat p div 64" ?m] m
  have "unat p + (64 - ?m) = 64 * (unat p div 64 + 1)" by simp
  then show "(unat p + (64 - ?m)) mod 64 = 0" by (simp only: mod_mult_self1_is_0)
  fix j assume j: "j < 64 - ?m" "0 < j"
  have "(unat p + j) mod 64 = (?m + j) mod 64"
    by (simp add: mod_add_left_eq)
  also have "\<dots> = ?m + j" using j by simp
  finally show "(unat p + j) mod 64 \<noteq> 0" using j by simp
qed

lemma header_after_Allocate:
  fixes p :: addr
  shows "load_bytes 8 a (store_bytes a (to_bytes 8 p) m) = to_bytes 8 p"
  using load_store_bytes[of "to_bytes 8 p" a m] by (simp add: length_to_bytes)

lemma free_after_Allocate:
  assumes ok: "malloc_ok h sz p"
  shows "free p (h\<lparr>memory := m, blocks := (p, sz) # blocks h\<rparr>)
       = Inr (h\<lparr>memory := m, blocks := blocks h\<rparr>)"
proof -
  from ok have p0: "p \<noteq> 0" and fresh: "p \<notin> fst ` set (blocks h)"
    by (simp_all add: malloc_ok_def)
  have keep: "filter (\<lambda>blk. fst blk \<noteq> p) (blocks h) = blocks h"
    using fresh by (auto simp add: filter_id_conv)
  show ?thesis using p0 by (simp add: free_def keep)
qed

text \<open>
  \<open>Free\<close> on any heap: for a pointer that is not null and is a multiple of 64, with the
  8 bytes below it readable, \<open>Free\<close> loads the address stored in those bytes and, when
  the two assertions on it pass, hands exactly that address to \<^verbatim>\<open>free\<close>.
\<close>

lemma Free_reads_header:
  assumes "a \<noteq> 0" and "a mod 64 = 0" and "accessible g (a - 8) 8"
  shows "Free a g =
           (let q = from_bytes (load_bytes 8 (a - 8) (memory g)) :: addr in
            if q \<le> a - 8 \<and> a - 64 \<le> q then free q g else Inl Assert_failed)"
  using assms
  by (simp add: Free_def Let_def kCacheLineSize_def kPointerSize_def memcpy_from_def)

lemma header_in_block:
  assumes sz: "bytes < push_bit 63 1"
    and ok: "malloc_ok h (bytes + 64) (malloc (bytes + 64))"
  defines "p \<equiv> malloc (bytes + 64)"
  defines "aligned \<equiv> p + 64 - (p AND 63)"
  shows "in_block (aligned - 8) 8 (p, bytes + 64)"
    and "p \<le> aligned - 8" and "aligned - 64 \<le> p"
proof -
  from ok have al: "unat p mod 8 = 0"
    and top: "unat p + unat (bytes + 64) < 2 ^ 64"
    by (simp_all add: malloc_ok_def p_def)
  have req: "unat (bytes + 64) = unat bytes + 64"
    using sz by (rule unat_request)
  have top64: "unat p + 64 < 2 ^ 64"
    using top req by simp
  note ar = aligned_arith[OF al top64, folded aligned_def]
  have "m \<le> 56 \<Longrightarrow> m \<le> P \<Longrightarrow> P \<le> P + 56 - m \<and> P + 56 - m + 8 \<le> P + (B + 64)"
    for m P B :: nat by arith
  from this[OF ar(6) mod_less_eq_dividend]
  show "in_block (aligned - 8) 8 (p, bytes + 64)"
    by (simp only: in_block_def ar(4) req fst_conv snd_conv)
  show "p \<le> aligned - 8"
    using ar(6) by (simp add: word_le_nat_alt ar(4))
  show "aligned - 64 \<le> p"
    by (simp add: word_le_nat_alt ar(5))
qed

lemma Free_releases_block:
  assumes sz: "bytes < push_bit 63 1"
    and ok: "malloc_ok h (bytes + 64) (malloc (bytes + 64))"
    and live: "(malloc (bytes + 64), bytes + 64) \<in> set (blocks g)"
    and hdr: "load_bytes 8 (malloc (bytes + 64) + 64 - (malloc (bytes + 64) AND 63) - 8) (memory g)
                = to_bytes 8 (malloc (bytes + 64))"
  shows "Free (malloc (bytes + 64) + 64 - (malloc (bytes + 64) AND 63)) g
           = Inr (g\<lparr>blocks := filter (\<lambda>blk. fst blk \<noteq> malloc (bytes + 64)) (blocks g)\<rparr>)"
proof -
  define p where "p = malloc (bytes + 64)"
  define aligned where "aligned = p + 64 - (p AND 63)"
  note hb = header_in_block[of bytes h malloc, OF sz ok, folded p_def, folded aligned_def]
  note aa = Allocate_aligned[of bytes h malloc, OF sz ok, folded p_def, folded aligned_def]
  from ok have p0: "p \<noteq> 0" by (simp add: malloc_ok_def p_def)
  have acc: "accessible g (aligned - 8) 8"
    unfolding accessible_def list_ex_iff using live hb(1) by (auto simp add: p_def)
  have q: "(from_bytes (load_bytes 8 (aligned - 8) (memory g)) :: addr) = p"
    using hdr by (simp add: p_def aligned_def from_to_bytes take_bit_word_eq_self)
  have base: "p \<in> fst ` set (blocks g)"
    using live by (force simp add: p_def)
  have "Free aligned g = free p g"
    using hb(2,3) by (simp add: Free_reads_header[OF aa(1) aa(3) acc] q Let_def)
  also have "\<dots> = Inr (g\<lparr>blocks := filter (\<lambda>blk. fst blk \<noteq> p) (blocks g)\<rparr>)"
    using p0 base by (simp add: free_def)
  finally show ?thesis
    by (simp only: p_def aligned_def)
qed

text \<open>
  Claim C2. When the size passes the assertion \<open>bytes < 2^63\<close> and \<^verbatim>\<open>malloc\<close> succeeds,
  \<open>Allocate\<close> returns a pointer that is not null and whose address is a multiple of 64,
  and \<open>Free\<close> on that pointer returns normally and releases exactly the block that
  \<^verbatim>\<open>malloc\<close> handed out (the live blocks are again those from before the allocation).
  The same holds on every later heap \<open>g\<close> in which that block is still live and the 8
  bytes below the pointer are as \<open>Allocate\<close> left them, whatever other blocks have been
  allocated or freed in between: \<open>Free\<close> returns normally and removes that block and no
  other. \<open>Free\<close> of the null pointer leaves the heap as it is. When \<^verbatim>\<open>malloc\<close> fails,
  \<open>Allocate\<close> returns the null pointer.
\<close>

theorem Allocate_Free_contract:
  "(bytes < push_bit 63 1 \<and> malloc_ok h (bytes + 64) (malloc (bytes + 64)) \<longrightarrow>
      (\<exists>aligned h'. Allocate malloc bytes h = Inr (aligned, h') \<and> aligned \<noteq> 0
         \<and> unat aligned mod 64 = 0
         \<and> blocks h' = (malloc (bytes + 64), bytes + 64) # blocks h
         \<and> Free aligned h' = Inr (h'\<lparr>blocks := blocks h\<rparr>)
         \<and> (\<forall>g. (malloc (bytes + 64), bytes + 64) \<in> set (blocks g)
                \<and> load_bytes 8 (aligned - 8) (memory g) = load_bytes 8 (aligned - 8) (memory h')
              \<longrightarrow> Free aligned g
                    = Inr (g\<lparr>blocks := filter (\<lambda>blk. fst blk \<noteq> malloc (bytes + 64)) (blocks g)\<rparr>))))
   \<and> Free 0 h = Inr h
   \<and> (bytes < push_bit 63 1 \<and> malloc (bytes + 64) = 0 \<longrightarrow>
        Allocate malloc bytes h = Inr (0, h))"
proof (intro conjI impI)
  assume a: "bytes < push_bit 63 1 \<and> malloc_ok h (bytes + 64) (malloc (bytes + 64))"
  then have sz: "bytes < push_bit 63 1"
    and ok: "malloc_ok h (bytes + 64) (malloc (bytes + 64))" by simp_all
  define p where "p = malloc (bytes + 64)"
  define aligned where "aligned = p + 64 - (p AND 63)"
  define h' where "h' = h\<lparr>memory := store_bytes (aligned - 8) (to_bytes 8 p) (memory h),
                            blocks := (p, bytes + 64) # blocks h\<rparr>"
  have 1: "Allocate malloc bytes h = Inr (aligned, h')"
    using Allocate_returns[of bytes h malloc, OF sz ok]
    by (simp only: p_def aligned_def h'_def)
  note 2 = Allocate_aligned(1,2)[of bytes h malloc, OF sz ok, folded p_def, folded aligned_def]
  have 3: "blocks h' = (p, bytes + 64) # blocks h"
    by (simp add: h'_def)
  have 4: "Free aligned h' = Inr (h'\<lparr>blocks := blocks h\<rparr>)"
    using Free_after_Allocate[of bytes h malloc, OF sz ok]
    by (simp only: p_def aligned_def h'_def)
  have hdr: "load_bytes 8 (aligned - 8) (memory h') = to_bytes 8 p"
    by (simp add: h'_def header_after_Allocate)
  have 5: "Free aligned g = Inr (g\<lparr>blocks := filter (\<lambda>blk. fst blk \<noteq> p) (blocks g)\<rparr>)"
    if "(p, bytes + 64) \<in> set (blocks g)
        \<and> load_bytes 8 (aligned - 8) (memory g) = load_bytes 8 (aligned - 8) (memory h')" for g
  proof -
    from that have live: "(malloc (bytes + 64), bytes + 64) \<in> set (blocks g)"
      by (simp add: p_def)
    from that have "load_bytes 8 (aligned - 8) (memory g) = to_bytes 8 p"
      by (simp add: hdr)
    then have "load_bytes 8 (malloc (bytes + 64) + 64 - (malloc (bytes + 64) AND 63) - 8)
                 (memory g) = to_bytes 8 (malloc (bytes + 64))"
      by (simp only: p_def aligned_def)
    with sz ok live show ?thesis
      unfolding p_def aligned_def by (rule Free_releases_block)
  qed
  show "\<exists>aligned h'. Allocate malloc bytes h = Inr (aligned, h') \<and> aligned \<noteq> 0
         \<and> unat aligned mod 64 = 0
         \<and> blocks h' = (malloc (bytes + 64), bytes + 64) # blocks h
         \<and> Free aligned h' = Inr (h'\<lparr>blocks := blocks h\<rparr>)
         \<and> (\<forall>g. (malloc (bytes + 64), bytes + 64) \<in> set (blocks g)
                \<and> load_bytes 8 (aligned - 8) (memory g) = load_bytes 8 (aligned - 8) (memory h')
              \<longrightarrow> Free aligned g
                    = Inr (g\<lparr>blocks := filter (\<lambda>blk. fst blk \<noteq> malloc (bytes + 64)) (blocks g)\<rparr>))"
    unfolding p_def[symmetric]
    by (intro exI[of _ aligned] exI[of _ h'] conjI allI impI) (simp_all add: 1 2 3 4 5)
next
  show "Free 0 h = Inr h" by (simp add: Free_def)
next
  assume "bytes < push_bit 63 1 \<and> malloc (bytes + 64) = 0"
  then show "Allocate malloc bytes h = Inr (0, h)"
    by (simp add: Allocate_def Let_def kCacheLineSize_def malloc_block_def)
qed

theorem Allocate_Free_contract_witness:
  "(100 :: uint64_t) < push_bit 63 1 \<and> malloc_ok empty_heap (100 + 64) 0x1008
   \<and> (\<exists>aligned h'. Allocate (\<lambda>_. 0x1008) 100 empty_heap = Inr (aligned, h') \<and> aligned \<noteq> 0
         \<and> unat aligned mod 64 = 0
         \<and> blocks h' = (0x1008, 100 + 64) # blocks empty_heap
         \<and> Free aligned h' = Inr (h'\<lparr>blocks := blocks empty_heap\<rparr>)
         \<and> (0x1008, 100 + 64) \<in> set (blocks (malloc_block 0x2008 164 h'))
         \<and> load_bytes 8 (aligned - 8) (memory (malloc_block 0x2008 164 h'))
             = load_bytes 8 (aligned - 8) (memory h')
         \<and> Free aligned (malloc_block 0x2008 164 h')
             = Inr ((malloc_block 0x2008 164 h')\<lparr>blocks := [(0x2008, 164)]\<rparr>))
   \<and> Free 0 empty_heap = Inr empty_heap
   \<and> Allocate (\<lambda>_. 0) 100 empty_heap = Inr (0, empty_heap)"
proof -
  have 1: "(100 :: uint64_t) < push_bit 63 1" by simp
  have 2: "malloc_ok empty_heap (100 + 64) 0x1008"
    by (simp add: malloc_ok_def empty_heap_def)
  note t = Allocate_Free_contract[of 100 empty_heap "\<lambda>_. 0x1008", THEN conjunct1, THEN mp,
      OF conjI[OF 1 2]]
  from t obtain aligned h' where x: "Allocate (\<lambda>_. 0x1008) 100 empty_heap = Inr (aligned, h')
       \<and> aligned \<noteq> 0 \<and> unat aligned mod 64 = 0
       \<and> blocks h' = (0x1008, 100 + 64) # blocks empty_heap
       \<and> Free aligned h' = Inr (h'\<lparr>blocks := blocks empty_heap\<rparr>)
       \<and> (\<forall>g. (0x1008, 100 + 64) \<in> set (blocks g)
                \<and> load_bytes 8 (aligned - 8) (memory g) = load_bytes 8 (aligned - 8) (memory h')
              \<longrightarrow> Free aligned g
                    = Inr (g\<lparr>blocks := filter (\<lambda>blk. fst blk \<noteq> 0x1008) (blocks g)\<rparr>))"
    by (elim exE)
  from x have a: "Allocate (\<lambda>_. 0x1008) 100 empty_heap = Inr (aligned, h')"
    and b: "aligned \<noteq> 0" "unat aligned mod 64 = 0"
    and c: "blocks h' = (0x1008, 100 + 64) # blocks empty_heap"
    and d: "Free aligned h' = Inr (h'\<lparr>blocks := blocks empty_heap\<rparr>)"
    and e: "\<forall>g. (0x1008, 100 + 64) \<in> set (blocks g)
                \<and> load_bytes 8 (aligned - 8) (memory g) = load_bytes 8 (aligned - 8) (memory h')
              \<longrightarrow> Free aligned g
                    = Inr (g\<lparr>blocks := filter (\<lambda>blk. fst blk \<noteq> 0x1008) (blocks g)\<rparr>)"
    by simp_all
  define g where "g = malloc_block 0x2008 164 h'"
  have gb: "blocks g = [(0x2008, 164), (0x1008, 164)]"
    using c by (simp add: g_def malloc_block_def empty_heap_def)
  have gm: "memory g = memory h'"
    by (simp add: g_def malloc_block_def)
  have f: "(0x1008, 100 + 64) \<in> set (blocks g)"
    by (simp add: gb)
  have k: "load_bytes 8 (aligned - 8) (memory g) = load_bytes 8 (aligned - 8) (memory h')"
    by (simp only: gm)
  have "Free aligned g = Inr (g\<lparr>blocks := filter (\<lambda>blk. fst blk \<noteq> 0x1008) (blocks g)\<rparr>)"
    using f k e by simp
  then have l: "Free aligned g = Inr (g\<lparr>blocks := [(0x2008, 164)]\<rparr>)"
    by (simp add: gb)
  have m: "Free 0 empty_heap = Inr empty_heap"
    using Allocate_Free_contract[of 100 empty_heap "\<lambda>_. 0x1008"] by blast
  have n: "Allocate (\<lambda>_. 0) 100 empty_heap = Inr (0, empty_heap)"
    using 1 Allocate_Free_contract[of 100 empty_heap "\<lambda>_. 0"] by blast
  show ?thesis
    by (intro conjI exI[of _ aligned] exI[of _ h'], fold g_def) (rule 1 2 a b c d f k l m n)+
qed

text \<open>
  Claim C9, as amended. When \<^verbatim>\<open>malloc\<close> succeeds, \<open>Allocate\<close> has requested exactly
  \<open>bytes + 64\<close> bytes, returns the allocation address advanced by \<open>64 - address mod 64\<close>,
  which is the smallest offset above zero that makes the result a multiple of 64 (a
  full 64 bytes when the allocation is aligned already, so that the header always
  fits), and has stored the allocation address in the 8 bytes just below the returned
  address; \<open>Free\<close> reads that address back and frees it. On every heap \<open>g\<close> in which the
  8 bytes below the returned address are readable, \<open>Free\<close> of that address loads the
  address stored there and frees it, provided it lies in the 56 bytes before the
  header, and fails its assertion otherwise: what is freed is decided by the header
  alone.
\<close>

theorem Allocate_layout:
  "bytes < push_bit 63 1 \<and> malloc_ok h (bytes + 64) (malloc (bytes + 64)) \<longrightarrow>
     (let allocated = malloc (bytes + 64); offset = 64 - unat allocated mod 64 in
      \<exists>aligned h'. Allocate malloc bytes h = Inr (aligned, h')
        \<and> blocks h' = (allocated, bytes + 64) # blocks h
        \<and> unat aligned = unat allocated + offset
        \<and> smallest_positive_aligning_offset allocated offset
        \<and> load_bytes 8 (aligned - 8) (memory h') = to_bytes 8 allocated
        \<and> Free aligned h' = free allocated h'
        \<and> free allocated h' = Inr (h'\<lparr>blocks := blocks h\<rparr>)
        \<and> (\<forall>g. accessible g (aligned - 8) 8 \<longrightarrow>
              Free aligned g =
                (let stored = from_bytes (load_bytes 8 (aligned - 8) (memory g)) :: addr in
                 if stored \<le> aligned - 8 \<and> aligned - 64 \<le> stored then free stored g
                 else Inl Assert_failed)))"
proof (intro impI)
  assume a: "bytes < push_bit 63 1 \<and> malloc_ok h (bytes + 64) (malloc (bytes + 64))"
  then have sz: "bytes < push_bit 63 1"
    and ok: "malloc_ok h (bytes + 64) (malloc (bytes + 64))" by simp_all
  define p where "p = malloc (bytes + 64)"
  define aligned where "aligned = p + 64 - (p AND 63)"
  define h' where "h' = h\<lparr>memory := store_bytes (aligned - 8) (to_bytes 8 p) (memory h),
                            blocks := (p, bytes + 64) # blocks h\<rparr>"
  from ok have al: "unat p mod 8 = 0"
    and top: "unat p + unat (bytes + 64) < 2 ^ 64"
    by (simp_all add: malloc_ok_def p_def)
  have top64: "unat p + 64 < 2 ^ 64"
    using top unat_request[OF sz] by simp
  note aa = Allocate_aligned[of bytes h malloc, OF sz ok, folded p_def, folded aligned_def]
  have 1: "Allocate malloc bytes h = Inr (aligned, h')"
    using Allocate_returns[of bytes h malloc, OF sz ok]
    by (simp only: p_def aligned_def h'_def)
  have 2: "blocks h' = (p, bytes + 64) # blocks h"
    by (simp add: h'_def)
  have "unat p mod 64 \<le> unat p" by (rule mod_less_eq_dividend)
  then have 3: "unat aligned = unat p + (64 - unat p mod 64)"
    using aligned_arith(3)[OF al top64, folded aligned_def] by simp
  have 4: "smallest_positive_aligning_offset p (64 - unat p mod 64)"
    by (rule offset_smallest_positive)
  have 5: "load_bytes 8 (aligned - 8) (memory h') = to_bytes 8 p"
    by (simp add: h'_def header_after_Allocate)
  have 7: "free p h' = Inr (h'\<lparr>blocks := blocks h\<rparr>)"
    using free_after_Allocate[OF ok, folded p_def] by (simp add: h'_def)
  have 6: "Free aligned h' = free p h'"
    using Free_after_Allocate[of bytes h malloc, OF sz ok, folded p_def, folded aligned_def,
        folded h'_def]
    by (simp only: 7)
  have 8: "Free aligned g =
             (let stored = from_bytes (load_bytes 8 (aligned - 8) (memory g)) :: addr in
              if stored \<le> aligned - 8 \<and> aligned - 64 \<le> stored then free stored g
              else Inl Assert_failed)"
    if "accessible g (aligned - 8) 8" for g
    using aa(1) aa(3) that by (rule Free_reads_header)
  show "let allocated = malloc (bytes + 64); offset = 64 - unat allocated mod 64 in
      \<exists>aligned h'. Allocate malloc bytes h = Inr (aligned, h')
        \<and> blocks h' = (allocated, bytes + 64) # blocks h
        \<and> unat aligned = unat allocated + offset
        \<and> smallest_positive_aligning_offset allocated offset
        \<and> load_bytes 8 (aligned - 8) (memory h') = to_bytes 8 allocated
        \<and> Free aligned h' = free allocated h'
        \<and> free allocated h' = Inr (h'\<lparr>blocks := blocks h\<rparr>)
        \<and> (\<forall>g. accessible g (aligned - 8) 8 \<longrightarrow>
              Free aligned g =
                (let stored = from_bytes (load_bytes 8 (aligned - 8) (memory g)) :: addr in
                 if stored \<le> aligned - 8 \<and> aligned - 64 \<le> stored then free stored g
                 else Inl Assert_failed))"
    unfolding Let_def p_def[symmetric]
    by (intro exI[of _ aligned] exI[of _ h'] conjI allI impI)
      (simp_all only: 1 2 3 4 5 6 7 8[unfolded Let_def])
qed

theorem Allocate_layout_witness:
  "(100 :: uint64_t) < push_bit 63 1 \<and> malloc_ok empty_heap (100 + 64) 0x1008
   \<and> (\<exists>aligned h'. Allocate (\<lambda>_. 0x1008) 100 empty_heap = Inr (aligned, h')
        \<and> blocks h' = (0x1008, 100 + 64) # blocks empty_heap
        \<and> unat aligned = unat (0x1008 :: addr) + 56
        \<and> smallest_positive_aligning_offset 0x1008 56
        \<and> load_bytes 8 (aligned - 8) (memory h') = to_bytes 8 (0x1008 :: addr)
        \<and> Free aligned h' = free 0x1008 h'
        \<and> free 0x1008 h' = Inr (h'\<lparr>blocks := blocks empty_heap\<rparr>)
        \<and> accessible (h'\<lparr>memory := store_bytes (aligned - 8) (to_bytes 8 (0x1010 :: addr))
                                      (memory h')\<rparr>) (aligned - 8) 8
        \<and> Free aligned (h'\<lparr>memory := store_bytes (aligned - 8) (to_bytes 8 (0x1010 :: addr))
                                        (memory h')\<rparr>)
            = free 0x1010 (h'\<lparr>memory := store_bytes (aligned - 8) (to_bytes 8 (0x1010 :: addr))
                                          (memory h')\<rparr>)
        \<and> free 0x1010 (h'\<lparr>memory := store_bytes (aligned - 8) (to_bytes 8 (0x1010 :: addr))
                                      (memory h')\<rparr>) = Inl Invalid_free)"
proof -
  have 1: "(100 :: uint64_t) < push_bit 63 1" by simp
  have 2: "malloc_ok empty_heap (100 + 64) 0x1008"
    by (simp add: malloc_ok_def empty_heap_def)
  note t = Allocate_layout[of 100 empty_heap "\<lambda>_. 0x1008", unfolded Let_def, THEN mp,
      OF conjI[OF 1 2]]
  from t obtain aligned h' where x: "Allocate (\<lambda>_. 0x1008) 100 empty_heap = Inr (aligned, h')
      \<and> blocks h' = (0x1008, 100 + 64) # blocks empty_heap
      \<and> unat aligned = unat (0x1008 :: addr) + (64 - unat (0x1008 :: addr) mod 64)
      \<and> smallest_positive_aligning_offset 0x1008 (64 - unat (0x1008 :: addr) mod 64)
      \<and> load_bytes 8 (aligned - 8) (memory h') = to_bytes 8 (0x1008 :: addr)
      \<and> Free aligned h' = free 0x1008 h'
      \<and> free 0x1008 h' = Inr (h'\<lparr>blocks := blocks empty_heap\<rparr>)
      \<and> (\<forall>g. accessible g (aligned - 8) 8 \<longrightarrow>
              Free aligned g =
                (if (from_bytes (load_bytes 8 (aligned - 8) (memory g)) :: addr) \<le> aligned - 8
                    \<and> aligned - 64 \<le> from_bytes (load_bytes 8 (aligned - 8) (memory g))
                 then free (from_bytes (load_bytes 8 (aligned - 8) (memory g))) g
                 else Inl Assert_failed))"
    by (elim exE)
  from x have a: "Allocate (\<lambda>_. 0x1008) 100 empty_heap = Inr (aligned, h')"
    and b: "blocks h' = (0x1008, 100 + 64) # blocks empty_heap"
    and c: "unat aligned = unat (0x1008 :: addr) + (64 - unat (0x1008 :: addr) mod 64)"
    and d: "smallest_positive_aligning_offset 0x1008 (64 - unat (0x1008 :: addr) mod 64)"
    and e: "load_bytes 8 (aligned - 8) (memory h') = to_bytes 8 (0x1008 :: addr)"
    and f: "Free aligned h' = free 0x1008 h'"
    and g: "free 0x1008 h' = Inr (h'\<lparr>blocks := blocks empty_heap\<rparr>)"
    and k: "\<forall>g. accessible g (aligned - 8) 8 \<longrightarrow>
              Free aligned g =
                (if (from_bytes (load_bytes 8 (aligned - 8) (memory g)) :: addr) \<le> aligned - 8
                    \<and> aligned - 64 \<le> from_bytes (load_bytes 8 (aligned - 8) (memory g))
                 then free (from_bytes (load_bytes 8 (aligned - 8) (memory g))) g
                 else Inl Assert_failed)"
    by simp_all
  have o: "64 - unat (0x1008 :: addr) mod 64 = 56" by simp
  from c have "unat aligned = unat (0x1040 :: addr)" by simp
  then have al: "aligned = 0x1040" by (simp only: word_unat_eq_iff)
  define g' where "g' = h'\<lparr>memory := store_bytes (aligned - 8) (to_bytes 8 (0x1010 :: addr))
                                      (memory h')\<rparr>"
  have acc: "accessible g' (aligned - 8) 8"
    using b by (simp add: g'_def accessible_def in_block_def al empty_heap_def)
  have st: "(from_bytes (load_bytes 8 (aligned - 8) (memory g')) :: addr) = 0x1010"
    by (simp add: g'_def header_round_trip)
  have l: "Free aligned g' = free 0x1010 g'"
    unfolding k[rule_format, OF acc] st by (simp add: al)
  have m: "free 0x1010 g' = Inl Invalid_free"
    using b by (simp add: free_def g'_def empty_heap_def)
  show ?thesis
    by (intro conjI exI[of _ aligned] exI[of _ h'], fold g'_def)
      (rule 1 2 a b c[unfolded o] d[unfolded o] e f g acc l m)+
qed

text \<open>
  The claim as it was stated, with the smallest forward offset, fails on a block that
  \<^verbatim>\<open>malloc\<close> returns 64-byte aligned: for the address \<open>0x1000\<close> the offset 0 already gives a
  multiple of 64, and \<open>Allocate\<close> returns \<open>0x1040\<close>, 64 bytes further.
\<close>

theorem Allocate_offset_not_smallest:
  "map_sum id fst (Allocate (\<lambda>_. 0x1000) 100 empty_heap) = Inr 0x1040
   \<and> unat (0x1040 :: addr) = unat (0x1000 :: addr) + 64
   \<and> \<not> smallest_aligning_offset 0x1000 64
   \<and> smallest_aligning_offset 0x1000 0"
proof -
  have 1: "(100 :: uint64_t) < push_bit 63 1" by simp
  have 2: "malloc_ok empty_heap (100 + 64) 0x1000"
    by (simp add: malloc_ok_def empty_heap_def)
  have "map_sum id fst (Allocate (\<lambda>_. 0x1000) 100 empty_heap) = Inr 0x1040"
    using Allocate_returns[of 100 empty_heap "\<lambda>_. 0x1000", OF 1 2] by simp
  moreover have "\<not> smallest_aligning_offset 0x1000 64"
    by (auto simp add: smallest_aligning_offset_def intro!: exI[of _ 0])
  moreover have "smallest_aligning_offset 0x1000 0"
    by (simp add: smallest_aligning_offset_def)
  ultimately show ?thesis by simp
qed

section \<open>Rounding toward the infinities\<close>

text \<open>
  The conversions of the results of the branch for magnitudes below one:
  \<^verbatim>\<open>V(positive)\<close> converts a \<^verbatim>\<open>bool\<close> to \<^verbatim>\<open>1.0\<close> or \<^verbatim>\<open>0.0\<close>, and \<^verbatim>\<open>V(negative ? -1.0 : 0.0f)\<close> gives
  \<^verbatim>\<open>-1.0\<close> or \<^verbatim>\<open>0.0\<close>. The bit pattern of \<open>1.0\<close> has the exponent field equal to the bias and
  the fraction zero; \<open>-1.0\<close> has the sign bit as well (lemmas \<open>valof_one\<close>,
  \<open>valof_minus_one\<close>).
\<close>

definition float_of_bool :: "nat \<Rightarrow> nat \<Rightarrow> bool \<Rightarrow> 'a::len word" where
  "float_of_bool mb eb b = (if b then push_bit mb (mask (eb - 1)) else 0)"

definition minus_one_or_zero :: "nat \<Rightarrow> nat \<Rightarrow> bool \<Rightarrow> 'a::len word" where
  "minus_one_or_zero mb eb b = (if b then push_bit (mb + eb) 1 OR push_bit mb (mask (eb - 1)) else 0)"

text \<open>
  The templates \<^verbatim>\<open>Ceiling\<close> and \<^verbatim>\<open>Floor\<close>, with \<^verbatim>\<open>Bits\<close> the word type \<open>'a\<close> and
  \<^verbatim>\<open>sizeof(Bits)\<close>, \<^verbatim>\<open>kMantissaBits\<close>, \<^verbatim>\<open>kExponentBits\<close> as arguments. \<^verbatim>\<open>1ull\<close> is a 64-bit
  constant, converted to \<^verbatim>\<open>Bits\<close>; \<^verbatim>\<open>f > 0.0f\<close> and \<^verbatim>\<open>f < 0.0f\<close> are the IEEE comparisons with
  zero; the exponent is computed in \<^verbatim>\<open>Bits\<close> (wrapping) and converted to \<^verbatim>\<open>int\<close>.
\<close>

definition Ceiling :: "nat \<Rightarrow> nat \<Rightarrow> nat \<Rightarrow> 'a::len word scalar \<Rightarrow> 'a word scalar" where
  "Ceiling sizeof_Bits kMantissaBits kExponentBits v =
     (let kExponentMask = ucast (push_bit kExponentBits (1 :: 64 word) - 1) :: 'a word;
          kMantissaMask = ucast (push_bit kMantissaBits (1 :: 64 word) - 1) :: 'a word;
          kBias = kExponentMask div 2;
          f = raw v;
          positive = fp_less (valof kMantissaBits kExponentBits (0 :: 'a word))
                             (valof kMantissaBits kExponentBits f);
          bits = from_bytes (CopyBytes sizeof_Bits (to_bytes sizeof_Bits (raw v))
                               (uninitialised sizeof_Bits)) :: 'a word;
          exponent = sint (ucast ((drop_bit kMantissaBits bits AND kExponentMask) - kBias) :: c_int)
      in if exponent \<ge> int kMantissaBits then v
         else if exponent < 0 then scalar (float_of_bool kMantissaBits kExponentBits positive)
         else
           let mantissa_mask = drop_bit (nat exponent) kMantissaMask
           in if bits AND mantissa_mask = 0 then v
              else
                let bits = (if positive
                            then bits + drop_bit (nat exponent) (kMantissaMask + 1) else bits);
                    bits = bits AND NOT mantissa_mask;
                    f = from_bytes (CopyBytes sizeof_Bits (to_bytes sizeof_Bits bits)
                                      (uninitialised sizeof_Bits)) :: 'a word
                in scalar f)"

definition Floor :: "nat \<Rightarrow> nat \<Rightarrow> nat \<Rightarrow> 'a::len word scalar \<Rightarrow> 'a word scalar" where
  "Floor sizeof_Bits kMantissaBits kExponentBits v =
     (let kExponentMask = ucast (push_bit kExponentBits (1 :: 64 word) - 1) :: 'a word;
          kMantissaMask = ucast (push_bit kMantissaBits (1 :: 64 word) - 1) :: 'a word;
          kBias = kExponentMask div 2;
          f = raw v;
          negative = fp_less (valof kMantissaBits kExponentBits f)
                             (valof kMantissaBits kExponentBits (0 :: 'a word));
          bits = from_bytes (CopyBytes sizeof_Bits (to_bytes sizeof_Bits (raw v))
                               (uninitialised sizeof_Bits)) :: 'a word;
          exponent = sint (ucast ((drop_bit kMantissaBits bits AND kExponentMask) - kBias) :: c_int)
      in if exponent \<ge> int kMantissaBits then v
         else if exponent < 0 then scalar (minus_one_or_zero kMantissaBits kExponentBits negative)
         else
           let mantissa_mask = drop_bit (nat exponent) kMantissaMask
           in if bits AND mantissa_mask = 0 then v
              else
                let bits = (if negative
                            then bits + drop_bit (nat exponent) (kMantissaMask + 1) else bits);
                    bits = bits AND NOT mantissa_mask;
                    f = from_bytes (CopyBytes sizeof_Bits (to_bytes sizeof_Bits bits)
                                      (uninitialised sizeof_Bits)) :: 'a word
                in scalar f)"

text \<open>
  \<^verbatim>\<open>round_pos_inf\<close> is \<^verbatim>\<open>Ceiling<float, uint32_t, 23, 8>\<close> or \<^verbatim>\<open>Ceiling<double, uint64_t, 52, 11>\<close>,
  \<^verbatim>\<open>round_neg_inf\<close> the same with \<^verbatim>\<open>Floor\<close>.
\<close>

definition round_pos_inf_f32 :: "32 word scalar \<Rightarrow> 32 word scalar" where
  "round_pos_inf_f32 = Ceiling 4 23 8"

definition round_pos_inf_f64 :: "64 word scalar \<Rightarrow> 64 word scalar" where
  "round_pos_inf_f64 = Ceiling 8 52 11"

definition round_neg_inf_f32 :: "32 word scalar \<Rightarrow> 32 word scalar" where
  "round_neg_inf_f32 = Floor 4 23 8"

definition round_neg_inf_f64 :: "64 word scalar \<Rightarrow> 64 word scalar" where
  "round_neg_inf_f64 = Floor 8 52 11"

text \<open>
  The magnitude bits \<open>M\<close> of a finite value (exponent field and fraction, without the
  sign) denote \<open>scaled mb M / 2^(bias + mb)\<close>.
\<close>

definition scaled :: "nat \<Rightarrow> nat \<Rightarrow> nat" where
  "scaled mb M = (if M div 2 ^ mb = 0 then 2 * M else (2 ^ mb + M mod 2 ^ mb) * 2 ^ (M div 2 ^ mb))"

text \<open>
  The formats the template is instantiated with: \<open>len\<close> bits made of a sign, \<open>eb\<close>
  exponent bits and \<open>mb\<close> fraction bits, with \<^verbatim>\<open>Bits\<close> of 32 to 64 bits.
\<close>

definition ieee_format :: "nat \<Rightarrow> nat \<Rightarrow> nat \<Rightarrow> bool" where
  "ieee_format len mb eb = (len = mb + eb + 1 \<and> 32 \<le> len \<and> len \<le> 64 \<and> 0 < mb \<and> 1 < eb \<and> eb < 32 \<and> mb < 2 ^ (eb - 1))"

text \<open>
  The negation \<^verbatim>\<open>-x\<close> of a floating-point value flips the sign bit; \<open>fp_uminus\<close> is the
  negation of the value it denotes. \<open>integral\<close> holds of the finite values that are
  integers.
\<close>

definition fp_neg :: "nat \<Rightarrow> nat \<Rightarrow> 'a::len word \<Rightarrow> 'a word" where
  "fp_neg mb eb w = w XOR push_bit (mb + eb) 1"

fun fp_uminus :: "fp_value \<Rightarrow> fp_value" where
  "fp_uminus NaN = NaN"
| "fp_uminus (Infinity s) = Infinity (\<not> s)"
| "fp_uminus (Finite r) = Finite (- r)"

fun integral :: "fp_value \<Rightarrow> bool" where
  "integral (Finite r) = (of_int \<lfloor>r\<rfloor> = r)"
| "integral _ = False"

text \<open>The value of a \<^verbatim>\<open>float\<close> and of a \<^verbatim>\<open>double\<close> lane, and the negated lane.\<close>

definition value_f32 :: "32 word scalar \<Rightarrow> fp_value" where
  "value_f32 x = valof 23 8 (raw x)"

definition value_f64 :: "64 word scalar \<Rightarrow> fp_value" where
  "value_f64 x = valof 52 11 (raw x)"

definition neg_f32 :: "32 word scalar \<Rightarrow> 32 word scalar" where
  "neg_f32 x = scalar (fp_neg 23 8 (raw x))"

definition neg_f64 :: "64 word scalar \<Rightarrow> 64 word scalar" where
  "neg_f64 x = scalar (fp_neg 52 11 (raw x))"

subsection \<open>Magnitudes as natural numbers\<close>

lemma scaled_normal:
  assumes "1 \<le> e" and "f \<le> 2 ^ mb"
  shows "scaled mb (e * 2 ^ mb + f) = (2 ^ mb + f) * 2 ^ e"
proof (cases "f < 2 ^ mb")
  case True
  then have "(e * 2 ^ mb + f) div 2 ^ mb = e" and "(e * 2 ^ mb + f) mod 2 ^ mb = f"
    by simp_all
  then show ?thesis using assms(1) by (simp add: scaled_def)
next
  case False
  with assms(2) have f: "f = 2 ^ mb" by simp
  have "e * 2 ^ mb + f = (e + 1) * 2 ^ mb" by (simp add: f)
  then have "(e * 2 ^ mb + f) div 2 ^ mb = e + 1" and "(e * 2 ^ mb + f) mod 2 ^ mb = 0"
    by simp_all
  then show ?thesis by (simp add: scaled_def f)
qed

lemma scaled_subnormal: "M < 2 ^ mb \<Longrightarrow> scaled mb M = 2 * M"
  by (simp add: scaled_def)

lemma round_down_fields:
  fixes e f j mb :: nat
  assumes f: "f < 2 ^ mb" and j: "j \<le> mb"
  shows "(e * 2 ^ mb + f) div 2 ^ j * 2 ^ j = e * 2 ^ mb + f div 2 ^ j * 2 ^ j"
    and "f div 2 ^ j * 2 ^ j + 2 ^ j \<le> 2 ^ mb"
    and "(2 ^ mb + f) div 2 ^ j * 2 ^ j = 2 ^ mb + f div 2 ^ j * 2 ^ j"
proof -
  have pw: "(2::nat) ^ mb = 2 ^ (mb - j) * 2 ^ j"
    using j by (simp flip: power_add)
  have "(e * 2 ^ mb + f) div 2 ^ j = e * 2 ^ (mb - j) + f div 2 ^ j"
    unfolding pw by (simp add: mult.assoc[symmetric])
  then show "(e * 2 ^ mb + f) div 2 ^ j * 2 ^ j = e * 2 ^ mb + f div 2 ^ j * 2 ^ j"
    by (simp add: pw algebra_simps)
  have "(2 ^ mb + f) div 2 ^ j = 2 ^ (mb - j) + f div 2 ^ j"
    unfolding pw by simp
  then show "(2 ^ mb + f) div 2 ^ j * 2 ^ j = 2 ^ mb + f div 2 ^ j * 2 ^ j"
    by (simp add: pw algebra_simps)
  have "f div 2 ^ j < 2 ^ (mb - j)"
    using f unfolding pw by (simp add: less_mult_imp_div_less)
  then have "f div 2 ^ j + 1 \<le> 2 ^ (mb - j)" by simp
  then have "(f div 2 ^ j + 1) * 2 ^ j \<le> 2 ^ (mb - j) * 2 ^ j"
    by (rule mult_le_mono1)
  then have "(f div 2 ^ j + 1) * 2 ^ j \<le> 2 ^ mb"
    by (simp only: pw[symmetric])
  then show "f div 2 ^ j * 2 ^ j + 2 ^ j \<le> 2 ^ mb"
    by (simp add: algebra_simps)
qed

text \<open>
  The magnitude after the low \<open>j\<close> bits are cleared, and after one unit \<open>2^j\<close> is added
  to that.
\<close>

lemma scaled_round:
  fixes e f mb b :: nat
  assumes f: "f < 2 ^ mb" and lo: "b \<le> e" and hi: "e < b + mb" and b: "1 \<le> b"
  defines "j \<equiv> mb - (e - b)"
  defines "M \<equiv> e * 2 ^ mb + f"
  shows "scaled mb M = (2 ^ mb + f) * 2 ^ e"
    and "scaled mb (M div 2 ^ j * 2 ^ j) = (2 ^ mb + f) div 2 ^ j * 2 ^ (b + mb)"
    and "scaled mb (M div 2 ^ j * 2 ^ j + 2 ^ j) = ((2 ^ mb + f) div 2 ^ j + 1) * 2 ^ (b + mb)"
    and "2 ^ (b + mb) = (2::nat) ^ j * 2 ^ e"
proof -
  have e1: "1 \<le> e" using lo b by simp
  have j: "j \<le> mb" and je: "j + e = b + mb"
    using lo hi by (simp_all add: j_def)
  show pw: "2 ^ (b + mb) = (2::nat) ^ j * 2 ^ e"
    by (simp add: je[symmetric] power_add)
  note rd1 = round_down_fields(1)[OF f j, of e]
  note rd2 = round_down_fields(2)[OF f j]
  note rd3 = round_down_fields(3)[OF f j]
  show "scaled mb M = (2 ^ mb + f) * 2 ^ e"
    unfolding M_def using e1 f by (intro scaled_normal) simp_all
  have "scaled mb (M div 2 ^ j * 2 ^ j) = (2 ^ mb + f div 2 ^ j * 2 ^ j) * 2 ^ e"
    unfolding M_def rd1 using e1 rd2 by (intro scaled_normal) simp_all
  then show "scaled mb (M div 2 ^ j * 2 ^ j) = (2 ^ mb + f) div 2 ^ j * 2 ^ (b + mb)"
    by (simp add: rd3[symmetric] pw mult.assoc)
  have "scaled mb (M div 2 ^ j * 2 ^ j + 2 ^ j) = (2 ^ mb + (f div 2 ^ j * 2 ^ j + 2 ^ j)) * 2 ^ e"
    unfolding M_def rd1 add.assoc using e1 rd2 by (intro scaled_normal) simp_all
  also have "\<dots> = ((2 ^ mb + f) div 2 ^ j * 2 ^ j + 2 ^ j) * 2 ^ e"
    by (simp add: rd3 add.assoc)
  also have "\<dots> = ((2 ^ mb + f) div 2 ^ j + 1) * 2 ^ (b + mb)"
    by (simp add: pw algebra_simps)
  finally show "scaled mb (M div 2 ^ j * 2 ^ j + 2 ^ j) = ((2 ^ mb + f) div 2 ^ j + 1) * 2 ^ (b + mb)" .
qed

subsection \<open>The fields of a bit pattern\<close>

lemma fraction_unat: "fraction mb w = unat w mod 2 ^ mb"
  unfolding fraction_def unsigned_take_bit_eq by (simp add: take_bit_eq_mod)

lemma biased_exponent_unat: "biased_exponent mb eb w = unat w div 2 ^ mb mod 2 ^ eb"
  unfolding biased_exponent_def unsigned_take_bit_eq unat_drop_bit_eq
  by (simp add: take_bit_eq_mod drop_bit_eq_div)

lemma sign_bit_unat:
  fixes w :: "'a::len word"
  assumes "LENGTH('a) = mb + eb + 1"
  shows "sign_bit mb eb w \<longleftrightarrow> 2 ^ (mb + eb) \<le> unat w"
proof -
  have lt: "unat w < 2 * 2 ^ (mb + eb)"
    using unsigned_less[of w, where ?'a=nat] assms by simp
  have "sign_bit mb eb w \<longleftrightarrow> bit (unat w) (mb + eb)"
    using assms by (simp add: sign_bit_def bit_unsigned_iff)
  also have "\<dots> \<longleftrightarrow> odd (unat w div 2 ^ (mb + eb))"
    by (simp add: bit_iff_odd)
  also have "\<dots> \<longleftrightarrow> 2 ^ (mb + eb) \<le> unat w"
  proof (cases "2 ^ (mb + eb) \<le> unat w")
    case True
    then have "unat w div 2 ^ (mb + eb) = 1"
      using lt by (intro div_nat_eqI) simp_all
    with True show ?thesis by simp
  next
    case False
    then have "unat w div 2 ^ (mb + eb) = 0" by simp
    with False show ?thesis by simp
  qed
  finally show ?thesis .
qed

text \<open>The fields of a word whose value is given as sign, magnitude.\<close>

lemma fields_of_sum:
  fixes w :: "'a::len word"
  assumes len: "LENGTH('a) = mb + eb + 1"
    and u: "unat w = S * 2 ^ (mb + eb) + M" and M: "M < 2 ^ (mb + eb)" and S: "S \<le> 1"
  shows "fraction mb w = M mod 2 ^ mb"
    and "biased_exponent mb eb w = M div 2 ^ mb"
    and "sign_bit mb eb w \<longleftrightarrow> S = 1"
proof -
  have pw: "(2::nat) ^ (mb + eb) = 2 ^ eb * 2 ^ mb" by (simp add: power_add)
  have "unat w mod 2 ^ mb = M mod 2 ^ mb"
    unfolding u pw by (simp add: mult.assoc[symmetric])
  then show "fraction mb w = M mod 2 ^ mb" by (simp add: fraction_unat)
  have Md: "M div 2 ^ mb < 2 ^ eb"
    using M unfolding pw by (simp add: less_mult_imp_div_less)
  have "unat w div 2 ^ mb = S * 2 ^ eb + M div 2 ^ mb"
    unfolding u pw by (simp add: mult.assoc[symmetric])
  then have "unat w div 2 ^ mb mod 2 ^ eb = M div 2 ^ mb"
    using Md by simp
  then show "biased_exponent mb eb w = M div 2 ^ mb" by (simp add: biased_exponent_unat)
  show "sign_bit mb eb w \<longleftrightarrow> S = 1"
  proof (cases "S = 1")
    case True
    then show ?thesis by (simp add: sign_bit_unat[OF len] u)
  next
    case False
    with S have "S = 0" by simp
    then show ?thesis using M by (simp add: sign_bit_unat[OF len] u)
  qed
qed

text \<open>Every word splits into sign and magnitude.\<close>

lemma unat_sign_magnitude:
  fixes w :: "'a::len word"
  assumes len: "LENGTH('a) = mb + eb + 1"
  obtains S M where "unat w = S * 2 ^ (mb + eb) + M" and "M < 2 ^ (mb + eb)" and "S \<le> 1"
proof
  have lt: "unat w < 2 * 2 ^ (mb + eb)"
    using unsigned_less[of w, where ?'a=nat] len by simp
  show "unat w = (unat w div 2 ^ (mb + eb)) * 2 ^ (mb + eb) + unat w mod 2 ^ (mb + eb)"
    by (rule div_mult_mod_eq[symmetric])
  show "unat w mod 2 ^ (mb + eb) < 2 ^ (mb + eb)" by simp
  show "unat w div 2 ^ (mb + eb) \<le> 1"
    using lt by (simp add: less_mult_imp_div_less less_Suc_eq_le[symmetric])
qed

definition sgn_of :: "nat \<Rightarrow> real" where
  "sgn_of S = (if S = 1 then - 1 else 1)"

lemma valof_sum:
  fixes w :: "'a::len word"
  assumes len: "LENGTH('a) = mb + eb + 1"
    and u: "unat w = S * 2 ^ (mb + eb) + M" and S: "S \<le> 1"
    and fin: "M < (2 ^ eb - 1) * 2 ^ mb"
  shows "valof mb eb w = Finite (sgn_of S * real (scaled mb M) / 2 ^ (bias eb + mb))"
proof -
  have "(2 ^ eb - 1) * 2 ^ mb \<le> (2::nat) ^ eb * 2 ^ mb"
    by (rule mult_le_mono1) simp
  with fin have "M < 2 ^ eb * 2 ^ mb" by (rule less_le_trans)
  then have M: "M < 2 ^ (mb + eb)" by (simp add: power_add mult.commute)
  note fl = fields_of_sum[OF len u M S]
  have e: "M div 2 ^ mb < 2 ^ eb - 1"
    using fin by (simp add: less_mult_imp_div_less)
  then have ne: "M div 2 ^ mb \<noteq> 2 ^ eb - 1" by simp
  have sub: "M div 2 ^ mb = 0 \<Longrightarrow> M mod 2 ^ mb = M" by (simp add: div_eq_0_iff)
  show ?thesis
    using ne sub
    by (simp add: valof_def Let_def fl scaled_def sgn_of_def)
qed

subsection \<open>The exponent, the masks and the rounding unit\<close>

lemma one_ull_mask:
  assumes "n \<le> 64"
  shows "(ucast (push_bit n (1 :: 64 word) - 1) :: 'a::len word) = mask n"
proof -
  have "push_bit n (1 :: 64 word) - 1 = mask n"
    by (simp add: mask_eq_exp_minus_1 push_bit_of_1)
  moreover have "(ucast (mask n :: 64 word) :: 'a word) = mask n"
    using assms by (intro bit_eqI) (auto simp add: bit_simps)
  ultimately show ?thesis by simp
qed

lemma one_ull_mask_exp:
  assumes "n \<le> 64"
  shows "(ucast (2 ^ n - 1 :: 64 word) :: 'a::len word) = mask n"
  using one_ull_mask[OF assms, where 'a='a] by (simp add: push_bit_of_1)

lemma unat_mask_word:
  assumes "n \<le> LENGTH('a::len)"
  shows "unat (mask n :: 'a word) = 2 ^ n - 1"
proof -
  have "(mask n :: 'a word) = - 1 AND mask n" by simp
  then have "unat (mask n :: 'a word) = unat (- 1 :: 'a word) mod 2 ^ n"
    by (metis take_bit_eq_mask unsigned_take_bit_eq take_bit_eq_mod)
  also have "unat (- 1 :: 'a word) = 2 ^ LENGTH('a) - 1"
    by (simp add: unsigned_minus_1_eq_mask mask_eq_exp_minus_1)
  also have "(2 ^ LENGTH('a) - 1) mod 2 ^ n = (2::nat) ^ n - 1"
  proof -
    have "(2::nat) ^ LENGTH('a) = 2 ^ (LENGTH('a) - n) * 2 ^ n"
      using assms by (simp flip: power_add)
    moreover have "(0::nat) < 2 ^ (LENGTH('a) - n)" by simp
    then obtain c where c: "(2::nat) ^ (LENGTH('a) - n) = Suc c"
      using gr0_implies_Suc by blast
    ultimately have "(2::nat) ^ LENGTH('a) - 1 = c * 2 ^ n + (2 ^ n - 1)"
      by simp
    moreover have "(c * 2 ^ n + (2 ^ n - 1)) mod 2 ^ n = (2 ^ n - 1) mod (2::nat) ^ n"
      by (rule mod_mult_self3)
    moreover have "(2 ^ n - 1) mod (2::nat) ^ n = 2 ^ n - 1"
      by (rule mod_less) simp
    ultimately show ?thesis by (simp only:)
  qed
  finally show ?thesis .
qed

lemma unat_kBias:
  assumes "0 < eb" and "eb \<le> LENGTH('a::len)" and "1 < LENGTH('a)"
  shows "unat ((mask eb :: 'a word) div 2) = bias eb"
proof -
  have "unat (2 :: 'a word) = 2"
    using assms(3) by (simp add: unat_eq_nat_uint uint_bintrunc take_bit_int_eq_self)
  then have "unat ((mask eb :: 'a word) div 2) = (2 ^ eb - 1) div 2"
    using assms by (simp add: unat_div unat_mask_word)
  also have "(2::nat) ^ eb = 2 * 2 ^ (eb - 1)"
    using assms(1) by (cases eb) simp_all
  finally show ?thesis by (simp add: bias_def)
qed

lemma unat_exponent_field:
  "unat (drop_bit mb w AND mask eb) = biased_exponent mb eb w"
  by (simp add: biased_exponent_def take_bit_eq_mask)

lemma exponent_int:
  fixes w :: "'a::len word"
  assumes len: "32 \<le> LENGTH('a)" and eb: "0 < eb" "eb < 32"
  shows "sint (ucast ((drop_bit mb w AND mask eb) - mask eb div 2) :: c_int)
       = int (biased_exponent mb eb w) - int (bias eb)"
proof -
  let ?x = "drop_bit mb w AND mask eb :: 'a word"
  let ?y = "mask eb div 2 :: 'a word"
  let ?k = "int (biased_exponent mb eb w) - int (bias eb)"
  have ebl: "eb \<le> LENGTH('a)" and l1: "1 < LENGTH('a)" using len eb by simp_all
  have x: "?x = word_of_int (int (biased_exponent mb eb w))"
    by (simp add: unat_exponent_field[symmetric])
  have y: "?y = word_of_int (int (bias eb))"
    using unat_kBias[OF eb(1) ebl l1] by (metis of_nat_unat word_of_int_uint)
  have xy: "?x - ?y = word_of_int ?k"
    by (simp only: x y wi_hom_sub)
  have gu: "(ucast (word_of_int k :: 'a word) :: c_int) = word_of_int k" for k
    using len by (simp add: ucast_down_wi is_down)
  have gs: "sint (word_of_int k :: c_int) = signed_take_bit 31 k" for k
    by (simp add: sint_sbintrunc')
  have s: "sint (ucast (?x - ?y) :: c_int) = signed_take_bit 31 ?k"
    by (simp only: xy gu gs)
  have "biased_exponent mb eb w < 2 ^ eb"
    by (simp add: biased_exponent_unat)
  moreover have "(2::nat) ^ eb \<le> 2 ^ 31"
    using eb by (intro power_increasing) simp_all
  ultimately have e: "biased_exponent mb eb w < 2 ^ 31" by simp
  have "(2::nat) ^ (eb - 1) \<le> 2 ^ eb" by (intro power_increasing) simp_all
  then have "bias eb < 2 ^ eb" by (simp add: bias_def less_imp_diff_less order_less_le_trans[OF _ \<open>(2::nat) ^ (eb - 1) \<le> 2 ^ eb\<close>])
  with \<open>(2::nat) ^ eb \<le> 2 ^ 31\<close> have b: "bias eb < 2 ^ 31" by simp
  have "- (2 ^ 31) \<le> ?k" "?k < 2 ^ 31"
    using e b by simp_all
  then show ?thesis
    unfolding s by (rule signed_take_bit_int_eq_self)
qed

lemma mantissa_mask_eq:
  assumes "mb \<le> LENGTH('a::len)"
  shows "drop_bit k (mask mb :: 'a word) = mask (mb - k)"
  using assms by (intro bit_eqI) (auto simp add: bit_simps)

lemma round_unit_eq:
  assumes "k \<le> mb" and "mb < LENGTH('a::len)"
  shows "drop_bit k (mask mb + 1 :: 'a word) = 2 ^ (mb - k)"
proof -
  have "(mask mb + 1 :: 'a word) = 2 ^ mb"
    by (simp add: mask_eq_exp_minus_1)
  then show ?thesis
    using assms by (simp add: drop_bit_exp_eq)
qed

lemma unat_and_mask: "unat (w AND mask j) = unat w mod 2 ^ j"
  unfolding take_bit_eq_mask[symmetric] unsigned_take_bit_eq by (simp add: take_bit_eq_mod)

lemma and_not_mask_eq: "w AND NOT (mask j) = push_bit j (drop_bit j w)"
  for w :: "'a::len word"
  by (rule bit_eqI) (auto simp add: bit_simps)

lemma unat_and_not_mask:
  fixes w :: "'a::len word"
  shows "unat (w AND NOT (mask j)) = unat w div 2 ^ j * 2 ^ j"
proof -
  have le: "unat w div 2 ^ j * 2 ^ j \<le> unat w"
    by (rule div_times_less_eq_dividend)
  have "unat (w AND NOT (mask j)) = take_bit LENGTH('a) (push_bit j (drop_bit j (unat w)))"
    by (simp add: and_not_mask_eq unsigned_push_bit_eq unat_drop_bit_eq)
  also have "push_bit j (drop_bit j (unat w)) = unat w div 2 ^ j * 2 ^ j"
    by (simp add: push_bit_eq_mult drop_bit_eq_div)
  also have "take_bit LENGTH('a) (unat w div 2 ^ j * 2 ^ j) = unat w div 2 ^ j * 2 ^ j"
    using le unsigned_less[of w, where ?'a=nat]
    by (intro take_bit_nat_eq_self) (rule le_less_trans)
  finally show ?thesis .
qed

lemma unat_add_unit:
  fixes w :: "'a::len word"
  assumes "unat w + 2 ^ j < 2 ^ LENGTH('a)"
  shows "unat (w + 2 ^ j) = unat w + 2 ^ j"
proof -
  have "j < LENGTH('a)"
  proof (rule ccontr)
    assume "\<not> j < LENGTH('a)"
    then have "(2::nat) ^ LENGTH('a) \<le> 2 ^ j" by (intro power_increasing) simp_all
    with assms show False by simp
  qed
  then have "(2::nat) ^ j < 2 ^ LENGTH('a)" by simp
  then have "take_bit LENGTH('a) ((2::nat) ^ j) = 2 ^ j"
    by (rule take_bit_nat_eq_self)
  moreover have "unat (2 ^ j :: 'a word) = unat (push_bit j 1 :: 'a word)"
    by (simp add: push_bit_of_1)
  moreover have "unat (push_bit j 1 :: 'a word) = take_bit LENGTH('a) (push_bit j (unat (1 :: 'a word)))"
    by (rule unsigned_push_bit_eq)
  moreover have "push_bit j (unat (1 :: 'a word)) = 2 ^ j"
    by (simp add: push_bit_of_1)
  ultimately have "unat (2 ^ j :: 'a word) = 2 ^ j"
    by (simp only:)
  with assms show ?thesis using unat_add_lem[of w "2 ^ j"] by simp
qed

subsection \<open>The branches of Floor and Ceiling\<close>

lemma Floor_cases:
  fixes v :: "'a::len word scalar"
  assumes fmt: "ieee_format LENGTH('a) mb eb" and sz: "LENGTH('a) = 8 * n"
  defines "w \<equiv> raw v"
  defines "e \<equiv> biased_exponent mb eb w"
  defines "neg \<equiv> fp_less (valof mb eb w) (valof mb eb (0 :: 'a word))"
  shows "Floor n mb eb v =
     (if bias eb + mb \<le> e then v
      else if e < bias eb then scalar (minus_one_or_zero mb eb neg)
      else if w AND mask (mb - (e - bias eb)) = 0 then v
      else scalar ((if neg then w + 2 ^ (mb - (e - bias eb)) else w)
                     AND NOT (mask (mb - (e - bias eb)))))"
proof -
  from fmt have len: "32 \<le> LENGTH('a)" and eb: "0 < eb" "eb < 32" and mbl: "mb < LENGTH('a)"
    and mb64: "mb \<le> 64" and eb64: "eb \<le> 64"
    by (simp_all add: ieee_format_def)
  have ex: "sint (ucast ((drop_bit mb w AND mask eb) - mask eb div 2) :: c_int) = int e - int (bias eb)"
    unfolding e_def using len eb by (rule exponent_int)
  have c1: "int mb \<le> int e - int (bias eb) \<longleftrightarrow> bias eb + mb \<le> e" by linarith
  have c2: "int e - int (bias eb) < 0 \<longleftrightarrow> e < bias eb" by linarith
  have mm: "drop_bit k (mask mb :: 'a word) = mask (mb - k)" for k
    using mbl by (intro mantissa_mask_eq) simp
  show ?thesis
  proof (cases "bias eb + mb \<le> e")
    case True
    then show ?thesis
      by (simp add: Floor_def Let_def one_ull_mask_exp[OF mb64] one_ull_mask_exp[OF eb64]
          reinterpret_same_size[OF sz] w_def[symmetric] ex c1)
  next
    case hi: False
    show ?thesis
    proof (cases "e < bias eb")
      case True
      with hi show ?thesis
        by (simp add: Floor_def Let_def one_ull_mask_exp[OF mb64] one_ull_mask_exp[OF eb64]
            reinterpret_same_size[OF sz] w_def[symmetric] ex c1 c2 neg_def)
    next
      case lo: False
      then have k: "nat (int e - int (bias eb)) = e - bias eb" by simp
      have "e - bias eb \<le> mb" using hi by simp
      then have ru: "drop_bit (e - bias eb) (mask mb + 1 :: 'a word) = 2 ^ (mb - (e - bias eb))"
        using mbl by (rule round_unit_eq)
      from hi lo show ?thesis
        by (simp add: Floor_def Let_def one_ull_mask_exp[OF mb64] one_ull_mask_exp[OF eb64]
            reinterpret_same_size[OF sz] w_def[symmetric] ex c1 c2 neg_def k mm ru)
    qed
  qed
qed

lemma Ceiling_cases:
  fixes v :: "'a::len word scalar"
  assumes fmt: "ieee_format LENGTH('a) mb eb" and sz: "LENGTH('a) = 8 * n"
  defines "w \<equiv> raw v"
  defines "e \<equiv> biased_exponent mb eb w"
  defines "pos \<equiv> fp_less (valof mb eb (0 :: 'a word)) (valof mb eb w)"
  shows "Ceiling n mb eb v =
     (if bias eb + mb \<le> e then v
      else if e < bias eb then scalar (float_of_bool mb eb pos)
      else if w AND mask (mb - (e - bias eb)) = 0 then v
      else scalar ((if pos then w + 2 ^ (mb - (e - bias eb)) else w)
                     AND NOT (mask (mb - (e - bias eb)))))"
proof -
  from fmt have len: "32 \<le> LENGTH('a)" and eb: "0 < eb" "eb < 32" and mbl: "mb < LENGTH('a)"
    and mb64: "mb \<le> 64" and eb64: "eb \<le> 64"
    by (simp_all add: ieee_format_def)
  have ex: "sint (ucast ((drop_bit mb w AND mask eb) - mask eb div 2) :: c_int) = int e - int (bias eb)"
    unfolding e_def using len eb by (rule exponent_int)
  have c1: "int mb \<le> int e - int (bias eb) \<longleftrightarrow> bias eb + mb \<le> e" by linarith
  have c2: "int e - int (bias eb) < 0 \<longleftrightarrow> e < bias eb" by linarith
  have mm: "drop_bit k (mask mb :: 'a word) = mask (mb - k)" for k
    using mbl by (intro mantissa_mask_eq) simp
  show ?thesis
  proof (cases "bias eb + mb \<le> e")
    case True
    then show ?thesis
      by (simp add: Ceiling_def Let_def one_ull_mask_exp[OF mb64] one_ull_mask_exp[OF eb64]
          reinterpret_same_size[OF sz] w_def[symmetric] ex c1)
  next
    case hi: False
    show ?thesis
    proof (cases "e < bias eb")
      case True
      with hi show ?thesis
        by (simp add: Ceiling_def Let_def one_ull_mask_exp[OF mb64] one_ull_mask_exp[OF eb64]
            reinterpret_same_size[OF sz] w_def[symmetric] ex c1 c2 pos_def)
    next
      case lo: False
      then have k: "nat (int e - int (bias eb)) = e - bias eb" by simp
      have "e - bias eb \<le> mb" using hi by simp
      then have ru: "drop_bit (e - bias eb) (mask mb + 1 :: 'a word) = 2 ^ (mb - (e - bias eb))"
        using mbl by (rule round_unit_eq)
      from hi lo show ?thesis
        by (simp add: Ceiling_def Let_def one_ull_mask_exp[OF mb64] one_ull_mask_exp[OF eb64]
            reinterpret_same_size[OF sz] w_def[symmetric] ex c1 c2 pos_def k mm ru)
    qed
  qed
qed

subsection \<open>Floors and ceilings of ratios\<close>

lemma format_facts:
  assumes "ieee_format len mb eb"
  shows "len = mb + eb + 1" and "1 \<le> bias eb" and "bias eb + mb + 1 < 2 ^ eb"
    and "2 * 2 ^ (eb - 1) = (2::nat) ^ eb" and "bias eb + 1 = 2 ^ (eb - 1)"
proof -
  from assms have len: "len = mb + eb + 1" and eb: "1 < eb" and mb: "mb < 2 ^ (eb - 1)"
    by (simp_all add: ieee_format_def)
  show "len = mb + eb + 1" by fact
  from eb obtain c where c: "eb = Suc (Suc c)"
    by (cases eb; cases "eb - 1") simp_all
  show p: "2 * 2 ^ (eb - 1) = (2::nat) ^ eb" by (simp add: c)
  have two: "(2::nat) \<le> 2 ^ (eb - 1)" by (simp add: c)
  then show b1: "bias eb + 1 = 2 ^ (eb - 1)" by (simp add: bias_def)
  from two b1 show "1 \<le> bias eb" by linarith
  from mb b1 p show "bias eb + mb + 1 < 2 ^ eb" by linarith
qed

lemma floor_ratio: "\<lfloor>real N / real q\<rfloor> = int (N div q)"
  by (simp add: floor_divide_of_nat_eq)

lemma ratio_exact:
  assumes "N mod q = 0"
  shows "real N / real q = real (N div q)"
proof -
  from assms have "q dvd N" by (simp add: mod_eq_0_iff_dvd)
  then show ?thesis by (simp add: real_of_nat_div)
qed

lemma ceiling_ratio:
  assumes "0 < q" and "N mod q \<noteq> 0"
  shows "\<lceil>real N / real q\<rceil> = int (N div q) + 1"
proof (rule ceiling_unique)
  have N: "N = N div q * q + N mod q" by simp
  have q: "0 < real q" using assms(1) by simp
  have "N div q * q < N" using N assms(2) by linarith
  then have "real (N div q * q) < real N" by (simp only: of_nat_less_iff)
  then have "real (N div q) * real q < real N" by (simp only: of_nat_mult)
  then have "real (N div q) < real N / real q"
    using q by (simp add: pos_less_divide_eq)
  then show "of_int (int (N div q) + 1) - 1 < real N / real q" by simp
  have "N < q + N div q * q" using assms(1) by (rule dividend_less_div_times)
  then have "N < (N div q + 1) * q" by (simp add: algebra_simps)
  then have "real N < real ((N div q + 1) * q)" by (simp only: of_nat_less_iff)
  then have "real N < real (N div q + 1) * real q" by (simp only: of_nat_mult)
  then have "real N / real q < real (N div q + 1)"
    using q by (simp add: pos_divide_less_eq)
  then show "real N / real q \<le> of_int (int (N div q) + 1)" by simp
qed

lemma scaled_small:
  assumes b: "1 \<le> b" and e: "M div 2 ^ mb < b"
  shows "scaled mb M < 2 ^ (b + mb)"
proof (cases "M div 2 ^ mb = 0")
  case True
  then have "M < 2 ^ mb" by (simp add: div_eq_0_iff)
  then have "2 * M < 2 * 2 ^ mb" by simp
  also have "\<dots> = (2::nat) ^ (1 + mb)" by simp
  also have "\<dots> \<le> 2 ^ (b + mb)" using b by (intro power_increasing) simp_all
  finally show ?thesis using True by (simp add: scaled_def)
next
  case False
  let ?e = "M div 2 ^ mb"
  have "M mod 2 ^ mb < 2 ^ mb" by simp
  then have "2 ^ mb + M mod 2 ^ mb < 2 * 2 ^ mb" by simp
  then have "(2 ^ mb + M mod 2 ^ mb) * 2 ^ ?e < (2 * 2 ^ mb) * 2 ^ ?e"
    by (intro mult_strict_right_mono) simp_all
  also have "\<dots> = 2 ^ (?e + 1 + mb)" by (simp add: power_add)
  also have "\<dots> \<le> 2 ^ (b + mb)" using e by (intro power_increasing) simp_all
  finally show ?thesis using False by (simp add: scaled_def)
qed

subsection \<open>The values of the results\<close>

lemma valof_zero:
  assumes fmt: "ieee_format LENGTH('a::len) mb eb"
  shows "valof mb eb (0 :: 'a word) = Finite 0"
proof -
  note ff = format_facts[OF fmt]
  have "(0::nat) < 2 ^ eb - 1" using ff(3) by simp
  then have fin: "(0::nat) < (2 ^ eb - 1) * 2 ^ mb" by simp
  have "valof mb eb (0 :: 'a word) = Finite (sgn_of 0 * real (scaled mb 0) / 2 ^ (bias eb + mb))"
    by (rule valof_sum[OF ff(1) _ _ fin]) simp_all
  then show ?thesis by (simp add: scaled_def)
qed

lemma unat_one_bits:
  assumes fmt: "ieee_format LENGTH('a::len) mb eb"
  shows "unat (push_bit mb (mask (eb - 1)) :: 'a word) = bias eb * 2 ^ mb"
proof -
  note ff = format_facts[OF fmt]
  have "eb - 1 \<le> LENGTH('a)" using ff(1) by simp
  then have m: "unat (mask (eb - 1) :: 'a word) = bias eb"
    by (simp only: unat_mask_word bias_def)
  have "bias eb < 2 ^ eb" using ff(3) by simp
  then have "bias eb * 2 ^ mb < 2 ^ eb * 2 ^ mb" by simp
  also have "\<dots> \<le> 2 ^ LENGTH('a)" by (simp add: ff(1) power_add)
  finally have t: "take_bit LENGTH('a) (bias eb * 2 ^ mb) = bias eb * 2 ^ mb"
    by (rule take_bit_nat_eq_self)
  have "unat (push_bit mb (mask (eb - 1)) :: 'a word)
      = take_bit LENGTH('a) (push_bit mb (unat (mask (eb - 1) :: 'a word)))"
    by (rule unsigned_push_bit_eq)
  also have "\<dots> = take_bit LENGTH('a) (bias eb * 2 ^ mb)"
    by (simp only: m push_bit_eq_mult)
  finally show ?thesis by (simp only: t)
qed

lemma valof_one:
  assumes fmt: "ieee_format LENGTH('a::len) mb eb"
  shows "valof mb eb (float_of_bool mb eb True :: 'a word) = Finite 1"
proof -
  note ff = format_facts[OF fmt]
  have "bias eb < 2 ^ eb - 1" using ff(3) by simp
  then have fin: "bias eb * 2 ^ mb < (2 ^ eb - 1) * 2 ^ mb" by simp
  have u: "unat (push_bit mb (mask (eb - 1)) :: 'a word) = 0 * 2 ^ (mb + eb) + bias eb * 2 ^ mb"
    using unat_one_bits[OF fmt] by simp
  have sc: "scaled mb (bias eb * 2 ^ mb + 0) = (2 ^ mb + 0) * 2 ^ bias eb"
    using ff(2) by (intro scaled_normal) simp_all
  have "valof mb eb (push_bit mb (mask (eb - 1)) :: 'a word)
      = Finite (sgn_of 0 * real (scaled mb (bias eb * 2 ^ mb)) / 2 ^ (bias eb + mb))"
    by (rule valof_sum[OF ff(1) u _ fin]) simp
  then show ?thesis
    using sc by (simp add: float_of_bool_def sgn_of_def power_add)
qed

lemma valof_minus_one:
  assumes fmt: "ieee_format LENGTH('a::len) mb eb"
  shows "valof mb eb (minus_one_or_zero mb eb True :: 'a word) = Finite (- 1)"
proof -
  note ff = format_facts[OF fmt]
  let ?s = "push_bit (mb + eb) 1 :: 'a word"
  let ?o = "push_bit mb (mask (eb - 1)) :: 'a word"
  have "bias eb < 2 ^ eb - 1" using ff(3) by simp
  then have fin: "bias eb * 2 ^ mb < (2 ^ eb - 1) * 2 ^ mb" by simp
  have lt: "bias eb * 2 ^ mb < 2 ^ (mb + eb)"
  proof -
    have "bias eb < 2 ^ eb" using ff(3) by simp
    then have "bias eb * 2 ^ mb < 2 ^ eb * 2 ^ mb" by simp
    then show ?thesis by (simp add: power_add mult.commute)
  qed
  have "?s OR ?o = ?s + ?o"
    by (rule disjunctive_add[symmetric]) (auto simp add: bit_simps)
  moreover have us: "unat ?s = 2 ^ (mb + eb)"
  proof -
    have "(2::nat) ^ (mb + eb) < 2 ^ LENGTH('a)" by (simp add: ff(1))
    then have t: "take_bit LENGTH('a) ((2::nat) ^ (mb + eb)) = 2 ^ (mb + eb)"
      by (rule take_bit_nat_eq_self)
    have "unat ?s = take_bit LENGTH('a) (push_bit (mb + eb) (unat (1 :: 'a word)))"
      by (rule unsigned_push_bit_eq)
    also have "\<dots> = take_bit LENGTH('a) ((2::nat) ^ (mb + eb))"
      by (simp only: unsigned_1 push_bit_of_1)
    finally show ?thesis by (simp only: t)
  qed
  moreover have "unat (?s + ?o) = unat ?s + unat ?o"
  proof -
    have "unat ?s + unat ?o < 2 * 2 ^ (mb + eb)"
      using lt by (simp only: us unat_one_bits[OF fmt])
    then have "unat ?s + unat ?o < 2 ^ LENGTH('a)" by (simp add: ff(1))
    then show ?thesis by (simp only: unat_add_lem)
  qed
  ultimately have u: "unat (?s OR ?o) = 1 * 2 ^ (mb + eb) + bias eb * 2 ^ mb"
    by (simp only: unat_one_bits[OF fmt] mult_1)
  have sc: "scaled mb (bias eb * 2 ^ mb + 0) = (2 ^ mb + 0) * 2 ^ bias eb"
    using ff(2) by (intro scaled_normal) simp_all
  have "valof mb eb (?s OR ?o)
      = Finite (sgn_of 1 * real (scaled mb (bias eb * 2 ^ mb)) / 2 ^ (bias eb + mb))"
    by (rule valof_sum[OF ff(1) u _ fin]) simp
  then show ?thesis
    using sc by (simp add: minus_one_or_zero_def sgn_of_def power_add)
qed

lemma clear_low_sum:
  fixes S c q M :: nat
  assumes "0 < q"
  shows "(S * (c * q) + M) div q * q = S * (c * q) + M div q * q"
    and "(S * (c * q) + M) mod q = M mod q"
    and "(x + q) div q * q = x div q * q + q"
proof -
  have "(S * (c * q) + M) div q = S * c + M div q"
    using assms by (simp add: mult.assoc[symmetric])
  then show "(S * (c * q) + M) div q * q = S * (c * q) + M div q * q"
    by (simp add: algebra_simps)
  show "(S * (c * q) + M) mod q = M mod q"
    by (simp add: mult.assoc[symmetric])
  have "(x + q) div q = x div q + 1" using assms by simp
  then show "(x + q) div q * q = x div q * q + q" by (simp add: algebra_simps)
qed

lemma cancel_scale: "s * real (Q * 2 ^ k) / 2 ^ k = s * real Q"
  by simp

lemma word_zero_unat: "w = 0 \<longleftrightarrow> unat w = 0"
  by (simp add: unsigned_eq_0_iff)

lemma mid_values:
  fixes w :: "'a::len word"
  assumes fmt: "ieee_format LENGTH('a) mb eb"
    and u: "unat w = S * 2 ^ (mb + eb) + M" and S: "S \<le> 1" and M: "M < 2 ^ (mb + eb)"
    and lo: "bias eb \<le> M div 2 ^ mb" and hi: "M div 2 ^ mb < bias eb + mb"
  defines "j \<equiv> mb - (M div 2 ^ mb - bias eb)"
  defines "N \<equiv> 2 ^ mb + M mod 2 ^ mb"
  shows "valof mb eb w = Finite (sgn_of S * (real N / 2 ^ j))"
    and "w AND mask j = 0 \<longleftrightarrow> N mod 2 ^ j = 0"
    and "valof mb eb (w AND NOT (mask j)) = Finite (sgn_of S * real (N div 2 ^ j))"
    and "valof mb eb ((w + 2 ^ j) AND NOT (mask j)) = Finite (sgn_of S * real (N div 2 ^ j + 1))"
proof -
  note ff = format_facts[OF fmt]
  define e where "e = M div 2 ^ mb"
  define f where "f = M mod 2 ^ mb"
  define D :: nat where "D = 2 ^ (bias eb + mb)"
  have Mef: "M = e * 2 ^ mb + f" unfolding e_def f_def by (rule div_mult_mod_eq[symmetric])
  have f: "f < 2 ^ mb" by (simp add: f_def)
  have lo': "bias eb \<le> e" and hi': "e < bias eb + mb" using lo hi by (simp_all add: e_def)
  have jdef: "j = mb - (e - bias eb)" by (simp add: j_def e_def)
  have jmb: "j \<le> mb" by (simp add: jdef)
  have Ndef: "N = 2 ^ mb + f" by (simp add: N_def f_def)
  note sr = scaled_round[OF f lo' hi' ff(2), folded Mef jdef Ndef D_def]
  have je: "j + e = bias eb + mb" using lo' hi' by (simp add: jdef)
  have Dr: "(2::real) ^ (bias eb + mb) = 2 ^ j * 2 ^ e"
    by (simp add: je[symmetric] power_add)
  \<comment> \<open>bounds\<close>
  have "M < (e + 1) * 2 ^ mb" unfolding Mef using f by simp
  also have "\<dots> \<le> (bias eb + mb) * 2 ^ mb"
    using hi' by (intro mult_le_mono1) simp
  finally have Mb: "M < (bias eb + mb) * 2 ^ mb" .
  have "bias eb + mb + 1 \<le> 2 ^ eb - 1" using ff(3) by simp
  then have top: "(bias eb + mb + 1) * 2 ^ mb \<le> (2 ^ eb - 1) * 2 ^ mb"
    by (rule mult_le_mono1)
  have M2: "M + 2 ^ mb < (2 ^ eb - 1) * 2 ^ mb"
    using Mb top by (simp add: algebra_simps)
  have qle: "(2::nat) ^ j \<le> 2 ^ mb" using jmb by (intro power_increasing) simp_all
  have fin: "M < (2 ^ eb - 1) * 2 ^ mb" using M2 by simp
  have M'le: "M div 2 ^ j * 2 ^ j \<le> M" by (rule div_times_less_eq_dividend)
  have fin': "M div 2 ^ j * 2 ^ j < (2 ^ eb - 1) * 2 ^ mb" using M'le fin by (rule le_less_trans)
  have fin'': "M div 2 ^ j * 2 ^ j + 2 ^ j < (2 ^ eb - 1) * 2 ^ mb"
    using M'le qle M2 by linarith
  \<comment> \<open>the power of the sign bit is a multiple of the unit\<close>
  have P: "(2::nat) ^ (mb + eb) = 2 ^ (mb + eb - j) * 2 ^ j"
    using jmb by (simp flip: power_add)
  have q0: "(0::nat) < 2 ^ j" by simp
  \<comment> \<open>(1)\<close>
  have v1: "valof mb eb w = Finite (sgn_of S * real (scaled mb M) / 2 ^ (bias eb + mb))"
    by (rule valof_sum[OF ff(1) u S fin])
  have "sgn_of S * real (scaled mb M) / 2 ^ (bias eb + mb) = sgn_of S * (real N / 2 ^ j)"
    by (simp add: sr(1) Dr)
  then show "valof mb eb w = Finite (sgn_of S * (real N / 2 ^ j))" by (simp only: v1)
  \<comment> \<open>(2)\<close>
  have "unat w mod 2 ^ j = M mod 2 ^ j"
    unfolding u P by (rule clear_low_sum(2)[OF q0])
  also have "M mod 2 ^ j = N mod 2 ^ j"
  proof -
    have pm: "(2::nat) ^ mb = 2 ^ (mb - j) * 2 ^ j" using jmb by (simp flip: power_add)
    have "M mod 2 ^ j = f mod 2 ^ j"
      unfolding Mef pm using clear_low_sum(2)[OF q0, of e "2 ^ (mb - j)" f] by simp
    moreover have "N mod 2 ^ j = f mod 2 ^ j"
      unfolding Ndef pm using clear_low_sum(2)[OF q0, of 1 "2 ^ (mb - j)" f] by simp
    ultimately show ?thesis by simp
  qed
  finally show "w AND mask j = 0 \<longleftrightarrow> N mod 2 ^ j = 0"
    by (simp add: word_zero_unat unat_and_mask)
  \<comment> \<open>(3)\<close>
  have u3: "unat (w AND NOT (mask j)) = S * 2 ^ (mb + eb) + M div 2 ^ j * 2 ^ j"
    unfolding unat_and_not_mask u P by (rule clear_low_sum(1)[OF q0])
  have v3: "valof mb eb (w AND NOT (mask j))
      = Finite (sgn_of S * real (scaled mb (M div 2 ^ j * 2 ^ j)) / 2 ^ (bias eb + mb))"
    by (rule valof_sum[OF ff(1) u3 S fin'])
  have "sgn_of S * real (scaled mb (M div 2 ^ j * 2 ^ j)) / 2 ^ (bias eb + mb)
      = sgn_of S * real (N div 2 ^ j)"
    unfolding sr(2) D_def by (rule cancel_scale)
  then show "valof mb eb (w AND NOT (mask j)) = Finite (sgn_of S * real (N div 2 ^ j))"
    by (simp only: v3)
  \<comment> \<open>(4)\<close>
  have "unat w + 2 ^ j < 2 ^ (mb + eb) + 2 ^ (mb + eb)"
  proof -
    have "S * 2 ^ (mb + eb) \<le> 2 ^ (mb + eb)" using S by simp
    moreover have "M + 2 ^ j < 2 ^ (mb + eb)"
    proof -
      have "(2 ^ eb - 1) * 2 ^ mb \<le> (2::nat) ^ eb * 2 ^ mb" by (rule mult_le_mono1) simp
      then have "(2 ^ eb - 1) * 2 ^ mb \<le> (2::nat) ^ (mb + eb)" by (simp add: power_add mult.commute)
      with M2 qle show ?thesis by linarith
    qed
    ultimately show ?thesis unfolding u by linarith
  qed
  then have "unat w + 2 ^ j < 2 ^ LENGTH('a)" by (simp add: ff(1))
  then have ua: "unat (w + 2 ^ j) = unat w + 2 ^ j" by (rule unat_add_unit)
  have "unat ((w + 2 ^ j) AND NOT (mask j)) = (unat w + 2 ^ j) div 2 ^ j * 2 ^ j"
    by (simp only: unat_and_not_mask ua)
  also have "\<dots> = unat w div 2 ^ j * 2 ^ j + 2 ^ j"
    by (rule clear_low_sum(3)[OF q0])
  also have "unat w div 2 ^ j * 2 ^ j = S * 2 ^ (mb + eb) + M div 2 ^ j * 2 ^ j"
    unfolding u P by (rule clear_low_sum(1)[OF q0])
  finally have u4: "unat ((w + 2 ^ j) AND NOT (mask j))
      = S * 2 ^ (mb + eb) + (M div 2 ^ j * 2 ^ j + 2 ^ j)" by simp
  have v4: "valof mb eb ((w + 2 ^ j) AND NOT (mask j))
      = Finite (sgn_of S * real (scaled mb (M div 2 ^ j * 2 ^ j + 2 ^ j)) / 2 ^ (bias eb + mb))"
    by (rule valof_sum[OF ff(1) u4 S fin''])
  have "sgn_of S * real (scaled mb (M div 2 ^ j * 2 ^ j + 2 ^ j)) / 2 ^ (bias eb + mb)
      = sgn_of S * real (N div 2 ^ j + 1)"
    unfolding sr(3) D_def by (rule cancel_scale)
  then show "valof mb eb ((w + 2 ^ j) AND NOT (mask j)) = Finite (sgn_of S * real (N div 2 ^ j + 1))"
    by (simp only: v4)
qed

lemma finite_decomp:
  fixes w :: "'a::len word"
  assumes fmt: "ieee_format LENGTH('a) mb eb" and fin: "valof mb eb w = Finite r"
  obtains S M where "unat w = S * 2 ^ (mb + eb) + M" and "S \<le> 1" and "M < 2 ^ (mb + eb)"
    and "M < (2 ^ eb - 1) * 2 ^ mb" and "biased_exponent mb eb w = M div 2 ^ mb"
    and "r = sgn_of S * real (scaled mb M) / 2 ^ (bias eb + mb)"
proof -
  note ff = format_facts[OF fmt]
  obtain S M where u: "unat w = S * 2 ^ (mb + eb) + M" and M: "M < 2 ^ (mb + eb)" and S: "S \<le> 1"
    by (rule unat_sign_magnitude[OF ff(1)])
  note fl = fields_of_sum[OF ff(1) u M S]
  have ne: "M div 2 ^ mb \<noteq> 2 ^ eb - 1"
  proof
    assume "M div 2 ^ mb = 2 ^ eb - 1"
    then have "valof mb eb w \<noteq> Finite r"
      by (simp add: valof_def Let_def fl)
    with fin show False by simp
  qed
  have "M < 2 ^ eb * 2 ^ mb" using M by (simp add: power_add mult.commute)
  then have "M div 2 ^ mb < 2 ^ eb" by (simp add: less_mult_imp_div_less)
  with ne have e: "M div 2 ^ mb + 1 \<le> 2 ^ eb - 1" by linarith
  have "M < 2 ^ mb + M div 2 ^ mb * 2 ^ mb" by (rule dividend_less_div_times) simp
  then have "M < (M div 2 ^ mb + 1) * 2 ^ mb" by (simp add: algebra_simps)
  also have "\<dots> \<le> (2 ^ eb - 1) * 2 ^ mb" using e by (rule mult_le_mono1)
  finally have Mf: "M < (2 ^ eb - 1) * 2 ^ mb" .
  have "valof mb eb w = Finite (sgn_of S * real (scaled mb M) / 2 ^ (bias eb + mb))"
    by (rule valof_sum[OF ff(1) u S Mf])
  with fin have "r = sgn_of S * real (scaled mb M) / 2 ^ (bias eb + mb)" by simp
  with u S M Mf fl(2) show thesis by (rule that)
qed

lemma sgn_of_cases:
  assumes "S \<le> 1"
  obtains "S = 0" and "sgn_of S = 1" | "S = 1" and "sgn_of S = - 1"
  using assms by (cases "S = 1") (auto simp add: sgn_of_def)

text \<open>A value at or above 2^mb is an integer.\<close>

lemma large_is_integer:
  assumes b: "1 \<le> b" and e: "b + mb \<le> M div 2 ^ mb"
  shows "\<exists>K. real (scaled mb M) / 2 ^ (b + mb) = real K"
proof -
  let ?e = "M div 2 ^ mb"
  have M: "M = ?e * 2 ^ mb + M mod 2 ^ mb" by (rule div_mult_mod_eq[symmetric])
  have "scaled mb (?e * 2 ^ mb + M mod 2 ^ mb) = (2 ^ mb + M mod 2 ^ mb) * 2 ^ ?e"
    using b e by (intro scaled_normal) simp_all
  then have sc: "scaled mb M = (2 ^ mb + M mod 2 ^ mb) * 2 ^ ?e" using M by simp
  have "(2::nat) ^ ?e = 2 ^ (?e - (b + mb)) * 2 ^ (b + mb)"
    using e by (simp flip: power_add)
  then have "scaled mb M = ((2 ^ mb + M mod 2 ^ mb) * 2 ^ (?e - (b + mb))) * 2 ^ (b + mb)"
    by (simp only: sc mult.assoc)
  then have "1 * real (scaled mb M) / 2 ^ (b + mb)
      = 1 * real ((2 ^ mb + M mod 2 ^ mb) * 2 ^ (?e - (b + mb)))"
    by (simp only: cancel_scale)
  then have "real (scaled mb M) / 2 ^ (b + mb)
      = real ((2 ^ mb + M mod 2 ^ mb) * 2 ^ (?e - (b + mb)))"
    by (simp only: mult_1)
  then show ?thesis by (rule exI)
qed

lemma floor_ceiling_small:
  fixes x :: real
  assumes "0 \<le> x" and "x < 1"
  shows "\<lfloor>x\<rfloor> = 0" and "0 < x \<Longrightarrow> \<lceil>x\<rceil> = 1" and "0 < x \<Longrightarrow> \<lfloor>- x\<rfloor> = - 1"
    and "\<lceil>- x\<rceil> = 0"
proof -
  show "\<lfloor>x\<rfloor> = 0" using assms by (intro floor_unique) simp_all
  show "\<lceil>- x\<rceil> = 0" using assms by (intro ceiling_unique) simp_all
  show "\<lceil>x\<rceil> = 1" if "0 < x" using assms that by (intro ceiling_unique) simp_all
  show "\<lfloor>- x\<rfloor> = - 1" if "0 < x" using assms that by (intro floor_unique) simp_all
qed

lemma signed_integer_floor_ceiling:
  assumes "S \<le> 1"
  shows "real_of_int \<lfloor>sgn_of S * real K\<rfloor> = sgn_of S * real K"
    and "real_of_int \<lceil>sgn_of S * real K\<rceil> = sgn_of S * real K"
proof -
  have "\<exists>k::int. sgn_of S * real K = of_int k"
  proof (rule sgn_of_cases[OF assms])
    assume "sgn_of S = 1"
    then have "sgn_of S * real K = of_int (int K)" by simp
    then show ?thesis ..
  next
    assume "sgn_of S = - 1"
    then have "sgn_of S * real K = of_int (- int K)" by simp
    then show ?thesis ..
  qed
  then obtain k :: int where k: "sgn_of S * real K = of_int k" ..
  show "real_of_int \<lfloor>sgn_of S * real K\<rfloor> = sgn_of S * real K"
    unfolding k by simp
  show "real_of_int \<lceil>sgn_of S * real K\<rceil> = sgn_of S * real K"
    unfolding k by simp
qed

text \<open>Below one in magnitude: the floor and the ceiling of \<open>sgn * x\<close> for \<open>0 \<le> x < 1\<close>.\<close>

lemma signed_small_floor:
  fixes x :: real
  assumes S: "S \<le> 1" and x0: "0 \<le> x" and x1: "x < 1"
  shows "sgn_of S * x < 0 \<Longrightarrow> \<lfloor>sgn_of S * x\<rfloor> = - 1"
    and "\<not> sgn_of S * x < 0 \<Longrightarrow> \<lfloor>sgn_of S * x\<rfloor> = 0"
    and "0 < sgn_of S * x \<Longrightarrow> \<lceil>sgn_of S * x\<rceil> = 1"
    and "\<not> 0 < sgn_of S * x \<Longrightarrow> \<lceil>sgn_of S * x\<rceil> = 0"
proof -
  show "\<lfloor>sgn_of S * x\<rfloor> = - 1" if "sgn_of S * x < 0"
    using that x0 x1 by (intro floor_unique) (auto simp add: sgn_of_def split: if_splits)
  show "\<lfloor>sgn_of S * x\<rfloor> = 0" if "\<not> sgn_of S * x < 0"
    using that x0 x1 by (intro floor_unique) (auto simp add: sgn_of_def split: if_splits)
  show "\<lceil>sgn_of S * x\<rceil> = 1" if "0 < sgn_of S * x"
    using that x0 x1 by (intro ceiling_unique) (auto simp add: sgn_of_def split: if_splits)
  show "\<lceil>sgn_of S * x\<rceil> = 0" if "\<not> 0 < sgn_of S * x"
    using that x0 x1 by (intro ceiling_unique) (auto simp add: sgn_of_def split: if_splits)
qed

text \<open>A ratio that is not an integer: floor and ceiling of \<open>sgn * (N / q)\<close>.\<close>

lemma signed_ratio_floor:
  assumes S: "S \<le> 1" and q: "0 < q" and nz: "N mod q \<noteq> 0"
  defines "y \<equiv> real N / real q"
  shows "sgn_of S * y < 0 \<longleftrightarrow> S = 1"
    and "0 < sgn_of S * y \<longleftrightarrow> S \<noteq> 1"
    and "S = 1 \<Longrightarrow> real_of_int \<lfloor>sgn_of S * y\<rfloor> = sgn_of S * real (N div q + 1)"
    and "S \<noteq> 1 \<Longrightarrow> real_of_int \<lfloor>sgn_of S * y\<rfloor> = sgn_of S * real (N div q)"
    and "S \<noteq> 1 \<Longrightarrow> real_of_int \<lceil>sgn_of S * y\<rceil> = sgn_of S * real (N div q + 1)"
    and "S = 1 \<Longrightarrow> real_of_int \<lceil>sgn_of S * y\<rceil> = sgn_of S * real (N div q)"
proof -
  have fl: "\<lfloor>y\<rfloor> = int (N div q)" unfolding y_def by (rule floor_ratio)
  have ce: "\<lceil>y\<rceil> = int (N div q) + 1" unfolding y_def using q nz by (rule ceiling_ratio)
  have "0 < N"
  proof (rule ccontr)
    assume "\<not> 0 < N"
    then have "N mod q = 0" by simp
    with nz show False by simp
  qed
  then have pos: "0 < y" using q by (simp add: y_def)
  show "sgn_of S * y < 0 \<longleftrightarrow> S = 1"
    using pos by (simp add: sgn_of_def)
  show "0 < sgn_of S * y \<longleftrightarrow> S \<noteq> 1"
    using pos by (simp add: sgn_of_def)
  show "real_of_int \<lfloor>sgn_of S * y\<rfloor> = sgn_of S * real (N div q + 1)" if "S = 1"
    using that ce by (simp add: sgn_of_def floor_minus)
  show "real_of_int \<lfloor>sgn_of S * y\<rfloor> = sgn_of S * real (N div q)" if "S \<noteq> 1"
    using that fl by (simp add: sgn_of_def)
  show "real_of_int \<lceil>sgn_of S * y\<rceil> = sgn_of S * real (N div q + 1)" if "S \<noteq> 1"
    using that ce by (simp add: sgn_of_def)
  show "real_of_int \<lceil>sgn_of S * y\<rceil> = sgn_of S * real (N div q)" if "S = 1"
    using that fl by (simp add: sgn_of_def ceiling_minus)
qed

lemma Floor_value:
  fixes v :: "'a::len word scalar"
  assumes fmt: "ieee_format LENGTH('a) mb eb" and sz: "LENGTH('a) = 8 * n"
    and fin: "valof mb eb (raw v) = Finite r"
  shows "valof mb eb (raw (Floor n mb eb v)) = Finite (of_int \<lfloor>r\<rfloor>)"
proof -
  note ff = format_facts[OF fmt]
  obtain S M where u: "unat (raw v) = S * 2 ^ (mb + eb) + M" and S: "S \<le> 1"
    and M: "M < 2 ^ (mb + eb)" and Mf: "M < (2 ^ eb - 1) * 2 ^ mb"
    and e: "biased_exponent mb eb (raw v) = M div 2 ^ mb"
    and r: "r = sgn_of S * real (scaled mb M) / 2 ^ (bias eb + mb)"
    by (rule finite_decomp[OF fmt fin])
  define x where "x = real (scaled mb M) / 2 ^ (bias eb + mb)"
  have rx: "r = sgn_of S * x" by (simp add: r x_def)
  have x0: "0 \<le> x" by (simp add: x_def)
  have neg: "fp_less (valof mb eb (raw v)) (valof mb eb (0 :: 'a word)) \<longleftrightarrow> r < 0"
    by (simp add: fin valof_zero[OF fmt])
  note fc = Floor_cases[OF fmt sz, of v, unfolded e neg]
  let ?e = "M div 2 ^ mb"
  consider (large) "bias eb + mb \<le> ?e" | (small) "?e < bias eb"
    | (mid) "bias eb \<le> ?e" "?e < bias eb + mb" by linarith
  then show ?thesis
  proof cases
    case large
    obtain K where K: "x = real K"
      using large_is_integer[OF ff(2) large] unfolding x_def by blast
    have fr: "real_of_int \<lfloor>r\<rfloor> = r"
      unfolding rx K by (rule signed_integer_floor_ceiling(1)[OF S])
    from large have "Floor n mb eb v = v" by (simp add: fc)
    then show ?thesis by (simp only: fin fr)
  next
    case small
    have "scaled mb M < 2 ^ (bias eb + mb)"
      using ff(2) small by (rule scaled_small)
    then have "real (scaled mb M) < real (2 ^ (bias eb + mb))"
      by (simp only: of_nat_less_iff)
    then have x1: "x < 1" by (simp add: x_def)
    note sm = signed_small_floor[OF S x0 x1, folded rx]
    show ?thesis
    proof (cases "r < 0")
      case True
      then have "\<lfloor>r\<rfloor> = - 1" by (rule sm(1))
      with True small show ?thesis
        by (simp add: fc valof_minus_one[OF fmt])
    next
      case False
      then have "\<lfloor>r\<rfloor> = 0" by (rule sm(2))
      with False small show ?thesis
        by (simp add: fc minus_one_or_zero_def valof_zero[OF fmt])
    qed
  next
    case mid
    define j where "j = mb - (?e - bias eb)"
    define N where "N = 2 ^ mb + M mod 2 ^ mb"
    define q :: nat where "q = 2 ^ j"
    note mv = mid_values[OF fmt u S M mid, folded j_def N_def]
    have rN: "r = sgn_of S * (real N / real q)"
      using mv(1) fin by (simp add: q_def)
    have q0: "0 < q" by (simp add: q_def)
    from mid have nl: "\<not> bias eb + mb \<le> ?e" and ns: "\<not> ?e < bias eb" by simp_all
    note fm = fc[folded j_def, unfolded if_not_P[OF nl] if_not_P[OF ns] mv(2), folded q_def]
    show ?thesis
    proof (cases "N mod q = 0")
      case True
      then have ex: "real N / real q = real (N div q)" by (rule ratio_exact)
      have fr: "real_of_int \<lfloor>r\<rfloor> = r"
        unfolding rN ex by (rule signed_integer_floor_ceiling(1)[OF S])
      from True have "Floor n mb eb v = v" by (simp add: fm)
      then show ?thesis by (simp only: fin fr)
    next
      case False
      note sr = signed_ratio_floor[OF S q0 False, folded rN]
      show ?thesis
      proof (cases "S = 1")
        case True
        then have "r < 0" by (simp add: sr(1))
        then have "Floor n mb eb v = scalar ((raw v + 2 ^ j) AND NOT (mask j))"
          using False by (simp only: fm if_False if_True)
        then show ?thesis
          by (simp only: scalar.sel mv(4) sr(3)[OF True] q_def)
      next
        case nS: False
        then have "\<not> r < 0" by (simp add: sr(1))
        then have "Floor n mb eb v = scalar (raw v AND NOT (mask j))"
          using False by (simp only: fm if_False)
        then show ?thesis
          by (simp only: scalar.sel mv(3) sr(4)[OF nS] q_def)
      qed
    qed
  qed
qed

lemma Ceiling_value:
  fixes v :: "'a::len word scalar"
  assumes fmt: "ieee_format LENGTH('a) mb eb" and sz: "LENGTH('a) = 8 * n"
    and fin: "valof mb eb (raw v) = Finite r"
  shows "valof mb eb (raw (Ceiling n mb eb v)) = Finite (of_int \<lceil>r\<rceil>)"
proof -
  note ff = format_facts[OF fmt]
  obtain S M where u: "unat (raw v) = S * 2 ^ (mb + eb) + M" and S: "S \<le> 1"
    and M: "M < 2 ^ (mb + eb)" and Mf: "M < (2 ^ eb - 1) * 2 ^ mb"
    and e: "biased_exponent mb eb (raw v) = M div 2 ^ mb"
    and r: "r = sgn_of S * real (scaled mb M) / 2 ^ (bias eb + mb)"
    by (rule finite_decomp[OF fmt fin])
  define x where "x = real (scaled mb M) / 2 ^ (bias eb + mb)"
  have rx: "r = sgn_of S * x" by (simp add: r x_def)
  have x0: "0 \<le> x" by (simp add: x_def)
  have pos: "fp_less (valof mb eb (0 :: 'a word)) (valof mb eb (raw v)) \<longleftrightarrow> 0 < r"
    by (simp add: fin valof_zero[OF fmt])
  note fc = Ceiling_cases[OF fmt sz, of v, unfolded e pos]
  let ?e = "M div 2 ^ mb"
  consider (large) "bias eb + mb \<le> ?e" | (small) "?e < bias eb"
    | (mid) "bias eb \<le> ?e" "?e < bias eb + mb" by linarith
  then show ?thesis
  proof cases
    case large
    obtain K where K: "x = real K"
      using large_is_integer[OF ff(2) large] unfolding x_def by blast
    have fr: "real_of_int \<lceil>r\<rceil> = r"
      unfolding rx K by (rule signed_integer_floor_ceiling(2)[OF S])
    from large have "Ceiling n mb eb v = v" by (simp add: fc)
    then show ?thesis by (simp only: fin fr)
  next
    case small
    have "scaled mb M < 2 ^ (bias eb + mb)"
      using ff(2) small by (rule scaled_small)
    then have "real (scaled mb M) < real (2 ^ (bias eb + mb))"
      by (simp only: of_nat_less_iff)
    then have x1: "x < 1" by (simp add: x_def)
    note sm = signed_small_floor[OF S x0 x1, folded rx]
    show ?thesis
    proof (cases "0 < r")
      case True
      then have "\<lceil>r\<rceil> = 1" by (rule sm(3))
      with True small show ?thesis
        by (simp add: fc valof_one[OF fmt])
    next
      case False
      then have "\<lceil>r\<rceil> = 0" by (rule sm(4))
      with False small show ?thesis
        by (simp add: fc float_of_bool_def valof_zero[OF fmt])
    qed
  next
    case mid
    define j where "j = mb - (?e - bias eb)"
    define N where "N = 2 ^ mb + M mod 2 ^ mb"
    define q :: nat where "q = 2 ^ j"
    note mv = mid_values[OF fmt u S M mid, folded j_def N_def]
    have rN: "r = sgn_of S * (real N / real q)"
      using mv(1) fin by (simp add: q_def)
    have q0: "0 < q" by (simp add: q_def)
    from mid have nl: "\<not> bias eb + mb \<le> ?e" and ns: "\<not> ?e < bias eb" by simp_all
    note fm = fc[folded j_def, unfolded if_not_P[OF nl] if_not_P[OF ns] mv(2), folded q_def]
    show ?thesis
    proof (cases "N mod q = 0")
      case True
      then have ex: "real N / real q = real (N div q)" by (rule ratio_exact)
      have fr: "real_of_int \<lceil>r\<rceil> = r"
        unfolding rN ex by (rule signed_integer_floor_ceiling(2)[OF S])
      from True have "Ceiling n mb eb v = v" by (simp add: fm)
      then show ?thesis by (simp only: fin fr)
    next
      case False
      note sr = signed_ratio_floor[OF S q0 False, folded rN]
      show ?thesis
      proof (cases "S = 1")
        case True
        then have "\<not> 0 < r" by (simp add: sr(2))
        then have "Ceiling n mb eb v = scalar (raw v AND NOT (mask j))"
          using False by (simp only: fm if_False)
        then show ?thesis
          by (simp only: scalar.sel mv(3) sr(6)[OF True] q_def)
      next
        case nS: False
        then have "0 < r" by (simp add: sr(2))
        then have "Ceiling n mb eb v = scalar ((raw v + 2 ^ j) AND NOT (mask j))"
          using False by (simp only: fm if_False if_True)
        then show ?thesis
          by (simp only: scalar.sel mv(4) sr(5)[OF nS] q_def)
      qed
    qed
  qed
qed

subsection \<open>The laws of rounding\<close>

lemma valof_fp_neg:
  fixes w :: "'a::len word"
  assumes len: "LENGTH('a) = mb + eb + 1"
  shows "valof mb eb (fp_neg mb eb w) = fp_uminus (valof mb eb w)"
proof -
  have f: "fraction mb (fp_neg mb eb w) = fraction mb w"
  proof -
    have "take_bit mb (w XOR push_bit (mb + eb) 1) = take_bit mb w"
      by (rule bit_eqI) (auto simp add: bit_simps)
    then show ?thesis by (simp add: fraction_def fp_neg_def)
  qed
  have e: "biased_exponent mb eb (fp_neg mb eb w) = biased_exponent mb eb w"
  proof -
    have "take_bit eb (drop_bit mb (w XOR push_bit (mb + eb) 1)) = take_bit eb (drop_bit mb w)"
      by (rule bit_eqI) (auto simp add: bit_simps)
    then show ?thesis by (simp add: biased_exponent_def fp_neg_def)
  qed
  have s: "sign_bit mb eb (fp_neg mb eb w) \<longleftrightarrow> \<not> sign_bit mb eb w"
    using len by (simp add: sign_bit_def fp_neg_def bit_simps)
  show ?thesis
    by (simp add: valof_def Let_def f e s)
qed

lemma not_finite_exponent:
  assumes "\<forall>r. valof mb eb w \<noteq> Finite r"
  shows "biased_exponent mb eb w = 2 ^ eb - 1"
proof (rule ccontr)
  assume "biased_exponent mb eb w \<noteq> 2 ^ eb - 1"
  then have "\<exists>r. valof mb eb w = Finite r"
    by (simp add: valof_def Let_def)
  with assms show False by simp
qed

lemma Floor_Ceiling_not_finite:
  fixes v :: "'a::len word scalar"
  assumes fmt: "ieee_format LENGTH('a) mb eb" and sz: "LENGTH('a) = 8 * n"
    and nf: "\<forall>r. valof mb eb (raw v) \<noteq> Finite r"
  shows "Floor n mb eb v = v" and "Ceiling n mb eb v = v"
proof -
  note ff = format_facts[OF fmt]
  have "biased_exponent mb eb (raw v) = 2 ^ eb - 1"
    using nf by (rule not_finite_exponent)
  then have big: "bias eb + mb \<le> biased_exponent mb eb (raw v)"
    using ff(3) by simp
  show "Floor n mb eb v = v"
    using big by (simp add: Floor_cases[OF fmt sz])
  show "Ceiling n mb eb v = v"
    using big by (simp add: Ceiling_cases[OF fmt sz])
qed

lemma fp_le_refl: "x \<noteq> NaN \<Longrightarrow> fp_le x x"
  by (cases x) simp_all

lemma fp_eq_refl: "x \<noteq> NaN \<Longrightarrow> fp_eq x x"
  by (cases x) simp_all

lemma rounding_laws:
  fixes x :: "'a::len word scalar"
  assumes fmt: "ieee_format LENGTH('a) mb eb" and sz: "LENGTH('a) = 8 * n"
    and nn: "valof mb eb (raw x) \<noteq> NaN"
  shows "fp_le (valof mb eb (raw (Floor n mb eb x))) (valof mb eb (raw x))"
    and "fp_le (valof mb eb (raw x)) (valof mb eb (raw (Ceiling n mb eb x)))"
    and "integral (valof mb eb (raw x))
           \<Longrightarrow> fp_eq (valof mb eb (raw (Floor n mb eb x))) (valof mb eb (raw x))"
    and "fp_eq (valof mb eb (raw (Ceiling n mb eb (scalar (fp_neg mb eb (raw x))))))
               (valof mb eb (fp_neg mb eb (raw (Floor n mb eb x))))"
proof -
  note ff = format_facts[OF fmt]
  let ?nx = "scalar (fp_neg mb eb (raw x)) :: 'a word scalar"
  have vn: "valof mb eb (raw ?nx) = fp_uminus (valof mb eb (raw x))"
    by (simp add: valof_fp_neg[OF ff(1)])
  have all: "fp_le (valof mb eb (raw (Floor n mb eb x))) (valof mb eb (raw x))
     \<and> fp_le (valof mb eb (raw x)) (valof mb eb (raw (Ceiling n mb eb x)))
     \<and> (integral (valof mb eb (raw x))
           \<longrightarrow> fp_eq (valof mb eb (raw (Floor n mb eb x))) (valof mb eb (raw x)))
     \<and> fp_eq (valof mb eb (raw (Ceiling n mb eb ?nx)))
               (valof mb eb (fp_neg mb eb (raw (Floor n mb eb x))))"
  proof (cases "valof mb eb (raw x)")
    case NaN
    with nn show ?thesis by simp
  next
    case (Infinity s)
    then have nf: "\<forall>r. valof mb eb (raw x) \<noteq> Finite r" by simp
    have nfn: "\<forall>r. valof mb eb (raw ?nx) \<noteq> Finite r" by (simp add: valof_fp_neg[OF ff(1)] Infinity)
    note a = Floor_Ceiling_not_finite[OF fmt sz nf]
    note b = Floor_Ceiling_not_finite[OF fmt sz nfn]
    show ?thesis
      unfolding a b(2) using vn by (simp add: Infinity)
  next
    case (Finite r)
    have fl: "valof mb eb (raw (Floor n mb eb x)) = Finite (of_int \<lfloor>r\<rfloor>)"
      using fmt sz Finite by (rule Floor_value)
    have ce: "valof mb eb (raw (Ceiling n mb eb x)) = Finite (of_int \<lceil>r\<rceil>)"
      using fmt sz Finite by (rule Ceiling_value)
    have "valof mb eb (raw ?nx) = Finite (- r)"
      by (simp add: valof_fp_neg[OF ff(1)] Finite)
    then have cn: "valof mb eb (raw (Ceiling n mb eb ?nx)) = Finite (of_int \<lceil>- r\<rceil>)"
      using fmt sz by (intro Ceiling_value)
    have nf: "valof mb eb (fp_neg mb eb (raw (Floor n mb eb x))) = Finite (- of_int \<lfloor>r\<rfloor>)"
      by (simp add: valof_fp_neg[OF ff(1)] fl)
    show ?thesis
      unfolding fl ce cn nf Finite
      by (simp add: ceiling_minus)
  qed
  from all show "fp_le (valof mb eb (raw (Floor n mb eb x))) (valof mb eb (raw x))"
    and "fp_le (valof mb eb (raw x)) (valof mb eb (raw (Ceiling n mb eb x)))"
    and "fp_eq (valof mb eb (raw (Ceiling n mb eb (scalar (fp_neg mb eb (raw x))))))
               (valof mb eb (fp_neg mb eb (raw (Floor n mb eb x))))"
    by simp_all
  from all show "fp_eq (valof mb eb (raw (Floor n mb eb x))) (valof mb eb (raw x))"
    if "integral (valof mb eb (raw x))"
    using that by simp
qed

lemma format_f32: "ieee_format LENGTH(32) 23 8"
  by (simp add: ieee_format_def)

lemma format_f64: "ieee_format LENGTH(64) 52 11"
  by (simp add: ieee_format_def)

text \<open>
  On every finite input \<^verbatim>\<open>round_neg_inf\<close> returns the floor and \<^verbatim>\<open>round_pos_inf\<close> the ceiling
  of the value; infinities and NaNs are returned as they are.
\<close>

lemma round_neg_inf_f32_floor:
  "value_f32 x = Finite r \<Longrightarrow> value_f32 (round_neg_inf_f32 x) = Finite (of_int \<lfloor>r\<rfloor>)"
  unfolding value_f32_def round_neg_inf_f32_def
  by (rule Floor_value[OF format_f32]) simp_all

lemma round_pos_inf_f32_ceiling:
  "value_f32 x = Finite r \<Longrightarrow> value_f32 (round_pos_inf_f32 x) = Finite (of_int \<lceil>r\<rceil>)"
  unfolding value_f32_def round_pos_inf_f32_def
  by (rule Ceiling_value[OF format_f32]) simp_all

lemma round_neg_inf_f64_floor:
  "value_f64 x = Finite r \<Longrightarrow> value_f64 (round_neg_inf_f64 x) = Finite (of_int \<lfloor>r\<rfloor>)"
  unfolding value_f64_def round_neg_inf_f64_def
  by (rule Floor_value[OF format_f64]) simp_all

lemma round_pos_inf_f64_ceiling:
  "value_f64 x = Finite r \<Longrightarrow> value_f64 (round_pos_inf_f64 x) = Finite (of_int \<lceil>r\<rceil>)"
  unfolding value_f64_def round_pos_inf_f64_def
  by (rule Ceiling_value[OF format_f64]) simp_all

lemma value_f32_minus_three_halves: "value_f32 (scalar 0xBFC00000) = Finite (- 3 / 2)"
  by (simp add: value_f32_def valof_def sign_bit_def biased_exponent_def fraction_def bias_def)

lemma value_f32_minus_two: "value_f32 (scalar 0xC0000000) = Finite (- 2)"
  by (simp add: value_f32_def valof_def sign_bit_def biased_exponent_def fraction_def bias_def)

lemma value_f32_minus_one: "value_f32 (scalar 0xBF800000) = Finite (- 1)"
  by (simp add: value_f32_def valof_def sign_bit_def biased_exponent_def fraction_def bias_def)

lemma value_f64_minus_two: "value_f64 (scalar 0xC000000000000000) = Finite (- 2)"
  by (simp add: value_f64_def valof_def sign_bit_def biased_exponent_def fraction_def bias_def)

lemma value_f32_nan: "value_f32 (scalar 0x7FC00000) = NaN"
  by (simp add: value_f32_def valof_def sign_bit_def biased_exponent_def fraction_def bias_def)

lemma value_f64_nan: "value_f64 (scalar 0x7FF8000000000000) = NaN"
  by (simp add: value_f64_def valof_def sign_bit_def biased_exponent_def fraction_def bias_def)

lemma round_scenario:
  "round_neg_inf_f32 (scalar 0xBFC00000) = scalar 0xC0000000"
  "round_pos_inf_f32 (scalar 0xBFC00000) = scalar 0xBF800000"
proof -
  have e: "biased_exponent 23 8 (0xBFC00000 :: 32 word) = 127"
    by (simp add: biased_exponent_def)
  have b: "bias 8 = 127" by (simp add: bias_def)
  have v: "valof 23 8 (0xBFC00000 :: 32 word) = Finite (- 3 / 2)"
    using value_f32_minus_three_halves by (simp add: value_f32_def)
  have z: "valof 23 8 (0 :: 32 word) = Finite 0"
    by (rule valof_zero[OF format_f32])
  show "round_neg_inf_f32 (scalar 0xBFC00000) = scalar 0xC0000000"
    unfolding round_neg_inf_f32_def
    by (simp add: Floor_cases[OF format_f32, of 4] e b v z mask_eq_exp_minus_1)
  show "round_pos_inf_f32 (scalar 0xBFC00000) = scalar 0xBF800000"
    unfolding round_pos_inf_f32_def
    by (simp add: Ceiling_cases[OF format_f32, of 4] e b v z mask_eq_exp_minus_1)
qed

lemma fp_compare_nan: "\<not> fp_less x NaN" "\<not> fp_le x NaN" "\<not> fp_eq x NaN"
  by (cases x; simp)+

text \<open>
  Claim C3, as amended. For every \<^verbatim>\<open>float\<close> or \<^verbatim>\<open>double\<close> value \<open>x\<close> that is not a NaN,
  \<open>round_neg_inf x \<le> x \<le> round_pos_inf x\<close>; \<open>round_neg_inf x == x\<close> when \<open>x\<close> is integral;
  and \<open>round_pos_inf (-x) == - round_neg_inf x\<close>, the comparisons being those of IEEE 754
  (the two zeros are equal). In particular \<open>round_neg_inf (-1.5f)\<close> is \<open>-2.0f\<close> (bit pattern
  \<open>0xC0000000\<close>) and \<open>round_pos_inf (-1.5f)\<close> is \<open>-1.0f\<close> (\<open>0xBF800000\<close>).
\<close>

theorem round_inf_laws:
  "(value_f32 x \<noteq> NaN \<longrightarrow>
      fp_le (value_f32 (round_neg_inf_f32 x)) (value_f32 x)
      \<and> fp_le (value_f32 x) (value_f32 (round_pos_inf_f32 x))
      \<and> (integral (value_f32 x) \<longrightarrow> fp_eq (value_f32 (round_neg_inf_f32 x)) (value_f32 x))
      \<and> fp_eq (value_f32 (round_pos_inf_f32 (neg_f32 x)))
               (value_f32 (neg_f32 (round_neg_inf_f32 x))))
   \<and> (value_f64 y \<noteq> NaN \<longrightarrow>
      fp_le (value_f64 (round_neg_inf_f64 y)) (value_f64 y)
      \<and> fp_le (value_f64 y) (value_f64 (round_pos_inf_f64 y))
      \<and> (integral (value_f64 y) \<longrightarrow> fp_eq (value_f64 (round_neg_inf_f64 y)) (value_f64 y))
      \<and> fp_eq (value_f64 (round_pos_inf_f64 (neg_f64 y)))
               (value_f64 (neg_f64 (round_neg_inf_f64 y))))
   \<and> round_neg_inf_f32 (scalar 0xBFC00000) = scalar 0xC0000000
   \<and> round_pos_inf_f32 (scalar 0xBFC00000) = scalar 0xBF800000"
proof (intro conjI impI)
  assume nn: "value_f32 x \<noteq> NaN"
  then have n: "valof 23 8 (raw x) \<noteq> NaN" by (simp add: value_f32_def)
  note rl = rounding_laws[OF format_f32 _ n, of 4, simplified]
  show "fp_le (value_f32 (round_neg_inf_f32 x)) (value_f32 x)"
    unfolding value_f32_def round_neg_inf_f32_def by (rule rl(1))
  show "fp_le (value_f32 x) (value_f32 (round_pos_inf_f32 x))"
    unfolding value_f32_def round_pos_inf_f32_def by (rule rl(2))
  show "fp_eq (value_f32 (round_neg_inf_f32 x)) (value_f32 x)" if "integral (value_f32 x)"
    using that unfolding value_f32_def round_neg_inf_f32_def by (rule rl(3))
  show "fp_eq (value_f32 (round_pos_inf_f32 (neg_f32 x)))
              (value_f32 (neg_f32 (round_neg_inf_f32 x)))"
    unfolding value_f32_def round_neg_inf_f32_def round_pos_inf_f32_def neg_f32_def scalar.sel
    by (rule rl(4))
next
  assume nn: "value_f64 y \<noteq> NaN"
  then have n: "valof 52 11 (raw y) \<noteq> NaN" by (simp add: value_f64_def)
  note rl = rounding_laws[OF format_f64 _ n, of 8, simplified]
  show "fp_le (value_f64 (round_neg_inf_f64 y)) (value_f64 y)"
    unfolding value_f64_def round_neg_inf_f64_def by (rule rl(1))
  show "fp_le (value_f64 y) (value_f64 (round_pos_inf_f64 y))"
    unfolding value_f64_def round_pos_inf_f64_def by (rule rl(2))
  show "fp_eq (value_f64 (round_neg_inf_f64 y)) (value_f64 y)" if "integral (value_f64 y)"
    using that unfolding value_f64_def round_neg_inf_f64_def by (rule rl(3))
  show "fp_eq (value_f64 (round_pos_inf_f64 (neg_f64 y)))
              (value_f64 (neg_f64 (round_neg_inf_f64 y)))"
    unfolding value_f64_def round_neg_inf_f64_def round_pos_inf_f64_def neg_f64_def scalar.sel
    by (rule rl(4))
next
  show "round_neg_inf_f32 (scalar 0xBFC00000) = scalar 0xC0000000"
    by (rule round_scenario(1))
  show "round_pos_inf_f32 (scalar 0xBFC00000) = scalar 0xBF800000"
    by (rule round_scenario(2))
qed

theorem round_inf_laws_witness:
  "value_f32 (scalar 0xC0000000) \<noteq> NaN \<and> integral (value_f32 (scalar 0xC0000000))
   \<and> fp_le (value_f32 (round_neg_inf_f32 (scalar 0xC0000000))) (value_f32 (scalar 0xC0000000))
   \<and> fp_le (value_f32 (scalar 0xC0000000)) (value_f32 (round_pos_inf_f32 (scalar 0xC0000000)))
   \<and> fp_eq (value_f32 (round_neg_inf_f32 (scalar 0xC0000000))) (value_f32 (scalar 0xC0000000))
   \<and> fp_eq (value_f32 (round_pos_inf_f32 (neg_f32 (scalar 0xC0000000))))
             (value_f32 (neg_f32 (round_neg_inf_f32 (scalar 0xC0000000))))
   \<and> value_f64 (scalar 0xC000000000000000) \<noteq> NaN
   \<and> integral (value_f64 (scalar 0xC000000000000000))
   \<and> fp_le (value_f64 (round_neg_inf_f64 (scalar 0xC000000000000000)))
             (value_f64 (scalar 0xC000000000000000))
   \<and> fp_le (value_f64 (scalar 0xC000000000000000))
             (value_f64 (round_pos_inf_f64 (scalar 0xC000000000000000)))
   \<and> fp_eq (value_f64 (round_neg_inf_f64 (scalar 0xC000000000000000)))
             (value_f64 (scalar 0xC000000000000000))
   \<and> fp_eq (value_f64 (round_pos_inf_f64 (neg_f64 (scalar 0xC000000000000000))))
             (value_f64 (neg_f64 (round_neg_inf_f64 (scalar 0xC000000000000000))))"
proof -
  have a: "value_f32 (scalar 0xC0000000) \<noteq> NaN" "integral (value_f32 (scalar 0xC0000000))"
    by (simp_all add: value_f32_minus_two)
  have b: "value_f64 (scalar 0xC000000000000000) \<noteq> NaN"
    "integral (value_f64 (scalar 0xC000000000000000))"
    by (simp_all add: value_f64_minus_two)
  show ?thesis
    using a b round_inf_laws[of "scalar 0xC0000000" "scalar 0xC000000000000000"]
    by blast
qed

text \<open>
  The claim as it was stated, for every value, fails on a NaN: both functions return
  a NaN unchanged, and every comparison with a NaN is false.
\<close>

theorem round_inf_laws_fail_at_nan:
  "\<not> fp_le (value_f32 (round_neg_inf_f32 (scalar 0x7FC00000))) (value_f32 (scalar 0x7FC00000))
   \<and> \<not> fp_le (value_f32 (scalar 0x7FC00000)) (value_f32 (round_pos_inf_f32 (scalar 0x7FC00000)))
   \<and> \<not> fp_eq (value_f32 (round_pos_inf_f32 (neg_f32 (scalar 0x7FC00000))))
               (value_f32 (neg_f32 (round_neg_inf_f32 (scalar 0x7FC00000))))
   \<and> \<not> fp_le (value_f64 (round_neg_inf_f64 (scalar 0x7FF8000000000000)))
               (value_f64 (scalar 0x7FF8000000000000))"
proof -
  have n32: "\<forall>r. valof 23 8 (raw (scalar 0x7FC00000 :: 32 word scalar)) \<noteq> Finite r"
    using value_f32_nan by (simp add: value_f32_def)
  have n64: "\<forall>r. valof 52 11 (raw (scalar 0x7FF8000000000000 :: 64 word scalar)) \<noteq> Finite r"
    using value_f64_nan by (simp add: value_f64_def)
  have f32: "round_neg_inf_f32 (scalar 0x7FC00000) = scalar 0x7FC00000"
    and c32: "round_pos_inf_f32 (scalar 0x7FC00000) = scalar 0x7FC00000"
    unfolding round_neg_inf_f32_def round_pos_inf_f32_def
    using Floor_Ceiling_not_finite[OF format_f32 _ n32, of 4] by simp_all
  have f64: "round_neg_inf_f64 (scalar 0x7FF8000000000000) = scalar 0x7FF8000000000000"
    unfolding round_neg_inf_f64_def
    using Floor_Ceiling_not_finite[OF format_f64 _ n64, of 8] by simp
  have "value_f32 (neg_f32 (scalar 0x7FC00000)) = NaN"
    using value_f32_nan valof_fp_neg[of 23 8 "0x7FC00000 :: 32 word"]
    by (simp add: value_f32_def neg_f32_def)
  then show ?thesis
    by (simp add: f32 c32 f64 value_f32_nan value_f64_nan fp_compare_nan)
qed

section \<open>Square root (simd/scalar.h)\<close>

subsection \<open>IEEE 754 arithmetic\<close>

text \<open>
  The operators \<^verbatim>\<open>*\<close> and \<^verbatim>\<open>-\<close> of C++ on \<^verbatim>\<open>float\<close> and \<^verbatim>\<open>double\<close>, and the conversions between
  the two types, are the operations of IEEE 754 on binary32 and binary64 in the default
  rounding mode: the exact result is rounded to the nearest value of the format, a tie
  to the one with an even significand, and every operation rounds to its own format
  (no excess precision, no contraction into a fused multiply-add). They act on the
  bit patterns of the lanes, as everything else in this development; the format is
  given by its number \<open>mb\<close> of fraction bits and \<open>eb\<close> of exponent bits.

  The classes of a pattern: NaN, infinity and zero; every other pattern is finite and
  not zero.
\<close>

definition is_nan :: "nat \<Rightarrow> nat \<Rightarrow> 'a::len word \<Rightarrow> bool" where
  "is_nan mb eb w = (biased_exponent mb eb w = 2 ^ eb - 1 \<and> fraction mb w \<noteq> 0)"

definition is_inf :: "nat \<Rightarrow> nat \<Rightarrow> 'a::len word \<Rightarrow> bool" where
  "is_inf mb eb w = (biased_exponent mb eb w = 2 ^ eb - 1 \<and> fraction mb w = 0)"

definition is_zero :: "nat \<Rightarrow> nat \<Rightarrow> 'a::len word \<Rightarrow> bool" where
  "is_zero mb eb w = (biased_exponent mb eb w = 0 \<and> fraction mb w = 0)"

text \<open>
  A finite pattern denotes the number \<open>\<plusminus> significand * 2 ^ unit_exponent\<close>: the
  significand is the fraction, with the implicit leading bit for a normal number, and
  \<open>unit_exponent\<close> is the exponent of its last bit.
\<close>

definition significand :: "nat \<Rightarrow> nat \<Rightarrow> 'a::len word \<Rightarrow> nat" where
  "significand mb eb w =
     (if biased_exponent mb eb w = 0 then fraction mb w else 2 ^ mb + fraction mb w)"

definition unit_exponent :: "nat \<Rightarrow> nat \<Rightarrow> 'a::len word \<Rightarrow> int" where
  "unit_exponent mb eb w = int (max 1 (biased_exponent mb eb w)) - int (bias eb) - int mb"

text \<open>
  The pattern with a given sign and magnitude, the magnitude being the exponent field
  and the fraction read as one number. IEEE 754 leaves the sign and the payload of a
  NaN result to the implementation; every NaN result here is \<open>quiet_nan\<close>, the quiet NaN
  with a clear sign and an empty payload.
\<close>

definition fp_pack :: "nat \<Rightarrow> nat \<Rightarrow> bool \<Rightarrow> nat \<Rightarrow> 'a::len word" where
  "fp_pack mb eb s magnitude = (if s then push_bit (mb + eb) 1 else 0) OR word_of_nat magnitude"

definition infinity :: "nat \<Rightarrow> nat \<Rightarrow> bool \<Rightarrow> 'a::len word" where
  "infinity mb eb s = fp_pack mb eb s ((2 ^ eb - 1) * 2 ^ mb)"

definition quiet_nan :: "nat \<Rightarrow> nat \<Rightarrow> 'a::len word" where
  "quiet_nan mb eb = fp_pack mb eb False ((2 ^ eb - 1) * 2 ^ mb + 2 ^ (mb - 1))"

text \<open>
  Rounding: \<open>fp_round mb eb s m q\<close> is the pattern nearest to \<open>\<plusminus> m * 2 ^ q\<close>. The result
  has its last bit at the exponent \<open>round_exponent\<close>, which leaves \<open>mb + 1\<close> significant
  bits, or fewer for a subnormal result, whose last bit is at \<open>unit_min\<close>. The
  significand is \<open>m\<close> shifted to that exponent, the bits shifted out rounded to nearest,
  ties to even; when this carries into bit \<open>mb + 1\<close> the sum below moves the carry into
  the exponent field. A magnitude that reaches the exponent field of all ones has
  overflowed and gives an infinity.
\<close>

fun bit_length :: "nat \<Rightarrow> nat" where
  "bit_length n = (if n = 0 then 0 else Suc (bit_length (n div 2)))"

declare bit_length.simps [simp del]

definition round_nearest_even :: "nat \<Rightarrow> nat \<Rightarrow> nat" where
  "round_nearest_even m d =
     (let t = m div 2 ^ d; r = m mod 2 ^ d; half = 2 ^ (d - 1)
      in if 0 < d \<and> (half < r \<or> (r = half \<and> odd t)) then t + 1 else t)"

definition unit_min :: "nat \<Rightarrow> nat \<Rightarrow> int" where
  "unit_min mb eb = 1 - int (bias eb) - int mb"

definition round_exponent :: "nat \<Rightarrow> nat \<Rightarrow> nat \<Rightarrow> int \<Rightarrow> int" where
  "round_exponent mb eb m q = max (unit_min mb eb) (q + int (bit_length m) - 1 - int mb)"

definition round_significand :: "nat \<Rightarrow> nat \<Rightarrow> nat \<Rightarrow> int \<Rightarrow> nat" where
  "round_significand mb eb m q =
     (let r = round_exponent mb eb m q
      in if r \<le> q then m * 2 ^ nat (q - r) else round_nearest_even m (nat (r - q)))"

definition fp_round :: "nat \<Rightarrow> nat \<Rightarrow> bool \<Rightarrow> nat \<Rightarrow> int \<Rightarrow> 'a::len word" where
  "fp_round mb eb s m q =
     (let magnitude = nat (round_exponent mb eb m q - unit_min mb eb) * 2 ^ mb
                        + round_significand mb eb m q
      in if m = 0 then fp_pack mb eb s 0
         else if (2 ^ eb - 1) * 2 ^ mb \<le> magnitude then infinity mb eb s
         else fp_pack mb eb s magnitude)"

text \<open>
  Multiplication: the product of the two numbers, rounded. A NaN operand gives a NaN, and
  so does an infinity times a zero.
\<close>

definition fp_mul :: "nat \<Rightarrow> nat \<Rightarrow> 'a::len word \<Rightarrow> 'a word \<Rightarrow> 'a word" where
  "fp_mul mb eb a b =
     (if is_nan mb eb a \<or> is_nan mb eb b then quiet_nan mb eb
      else if is_inf mb eb a \<or> is_inf mb eb b
        then (if is_zero mb eb a \<or> is_zero mb eb b then quiet_nan mb eb
              else infinity mb eb (sign_bit mb eb a \<noteq> sign_bit mb eb b))
      else fp_round mb eb (sign_bit mb eb a \<noteq> sign_bit mb eb b)
             (significand mb eb a * significand mb eb b)
             (unit_exponent mb eb a + unit_exponent mb eb b))"

text \<open>
  Subtraction: both numbers are brought to the smaller of the two unit exponents,
  where the difference is an integer, and the difference is rounded. An exact zero
  has the sign \<open>+\<close>, except for \<open>-0 - +0\<close>; the difference of two infinities of the same
  sign is a NaN.
\<close>

definition signed_significand :: "nat \<Rightarrow> nat \<Rightarrow> 'a::len word \<Rightarrow> int" where
  "signed_significand mb eb w =
     (if sign_bit mb eb w then - int (significand mb eb w) else int (significand mb eb w))"

definition fp_sub :: "nat \<Rightarrow> nat \<Rightarrow> 'a::len word \<Rightarrow> 'a word \<Rightarrow> 'a word" where
  "fp_sub mb eb a b =
     (if is_nan mb eb a \<or> is_nan mb eb b then quiet_nan mb eb
      else if is_inf mb eb a
        then (if is_inf mb eb b \<and> sign_bit mb eb a = sign_bit mb eb b then quiet_nan mb eb
              else a)
      else if is_inf mb eb b then infinity mb eb (\<not> sign_bit mb eb b)
      else
        let q = min (unit_exponent mb eb a) (unit_exponent mb eb b);
            x = signed_significand mb eb a * 2 ^ nat (unit_exponent mb eb a - q);
            y = signed_significand mb eb b * 2 ^ nat (unit_exponent mb eb b - q);
            d = x - y
        in if d = 0 then fp_pack mb eb (sign_bit mb eb a \<and> \<not> sign_bit mb eb b) 0
           else fp_round mb eb (d < 0) (nat \<bar>d\<bar>) q)"

text \<open>
  Conversion to another format, \<^verbatim>\<open>float\<close> to \<^verbatim>\<open>double\<close> and \<^verbatim>\<open>double\<close> to \<^verbatim>\<open>float\<close>: the number
  rounded to the new format.
\<close>

definition fp_convert :: "nat \<Rightarrow> nat \<Rightarrow> nat \<Rightarrow> nat \<Rightarrow> 'a::len word \<Rightarrow> 'b::len word" where
  "fp_convert mb eb mb' eb' w =
     (if is_nan mb eb w then quiet_nan mb' eb'
      else if is_inf mb eb w then infinity mb' eb' (sign_bit mb eb w)
      else fp_round mb' eb' (sign_bit mb eb w) (significand mb eb w) (unit_exponent mb eb w))"

definition float_mul :: "32 word \<Rightarrow> 32 word \<Rightarrow> 32 word" where
  "float_mul = fp_mul 23 8"

definition float_sub :: "32 word \<Rightarrow> 32 word \<Rightarrow> 32 word" where
  "float_sub = fp_sub 23 8"

definition double_mul :: "64 word \<Rightarrow> 64 word \<Rightarrow> 64 word" where
  "double_mul = fp_mul 52 11"

definition double_of_float :: "32 word \<Rightarrow> 64 word" where
  "double_of_float = fp_convert 23 8 52 11"

definition float_of_double :: "64 word \<Rightarrow> 32 word" where
  "float_of_double = fp_convert 52 11 23 8"

subsection \<open>The source: \<^verbatim>\<open>operator*\<close>, \<^verbatim>\<open>rsqrt_approx\<close> and \<^verbatim>\<open>sqrt\<close>\<close>

text \<open>
  \<^verbatim>\<open>operator*\<close> of \<^verbatim>\<open>scalar<float>\<close>: \<^verbatim>\<open>IsFloat<T>()\<close> holds, so the product is
  \<^verbatim>\<open>static_cast<float>(double(a.raw) * b.raw)\<close>, computed in double precision and
  narrowed.
\<close>

definition mul_f32 :: "32 word scalar \<Rightarrow> 32 word scalar \<Rightarrow> 32 word scalar" where
  "mul_f32 a b =
     scalar (float_of_double (double_mul (double_of_float (raw a)) (double_of_float (raw b))))"

text \<open>
  \<^verbatim>\<open>rsqrt_approx\<close>: \<^verbatim>\<open>half\<close> is \<^verbatim>\<open>f * 0.5f\<close>; the bits of \<^verbatim>\<open>f\<close> are copied into the
  \<^verbatim>\<open>uint32_t bits\<close>, replaced by \<^verbatim>\<open>0x5F3759DF - (bits >> 1)\<close> in unsigned arithmetic and
  copied back; the result is \<^verbatim>\<open>f * (1.5f - (half * f * f))\<close>, all in \<^verbatim>\<open>float\<close>. The
  constants \<^verbatim>\<open>0.5f\<close> and \<^verbatim>\<open>1.5f\<close> are the patterns \<open>0x3F000000\<close> and \<open>0x3FC00000\<close>.
\<close>

definition rsqrt_approx :: "32 word scalar \<Rightarrow> 32 word scalar" where
  "rsqrt_approx v =
     (let f = raw v;
          half = float_mul f 0x3F000000;
          bits = (from_bytes (CopyBytes 4 (to_bytes 4 f) (uninitialised 4)) :: uint32_t);
          bits = 0x5F3759DF - drop_bit 1 bits;
          f = (from_bytes (CopyBytes 4 (to_bytes 4 bits) (to_bytes 4 f)) :: 32 word)
      in scalar (float_mul f (float_sub 0x3FC00000 (float_mul (float_mul half f) f))))"

text \<open>
  \<^verbatim>\<open>sqrt\<close> of a \<^verbatim>\<open>float\<close> lane is \<^verbatim>\<open>rsqrt_approx(v) * v\<close>, with the \<^verbatim>\<open>operator*\<close> of the
  lanes; \<^verbatim>\<open>sqrt\<close> of a \<^verbatim>\<open>double\<close> lane converts to \<^verbatim>\<open>float\<close>, takes that square root and
  converts the result to \<^verbatim>\<open>double\<close>.
\<close>

definition sqrt_f32 :: "32 word scalar \<Rightarrow> 32 word scalar" where
  "sqrt_f32 v = mul_f32 (rsqrt_approx v) v"

definition sqrt_f64 :: "64 word scalar \<Rightarrow> 64 word scalar" where
  "sqrt_f64 v = scalar (double_of_float (raw (sqrt_f32 (scalar (float_of_double (raw v))))))"

subsection \<open>The specification of the square root\<close>

text \<open>
  In the words of the specification: the initial guess \<open>y\<close> has the bits
  \<open>0x5F3759DF - (bits >> 1)\<close>, and \<open>rsqrt_approx\<close> is one Newton-Raphson iteration on it,
  \<open>y * (1.5 - 0.5 * x * y * y)\<close>; the square root of a \<^verbatim>\<open>float\<close> is \<open>x\<close> multiplied by
  \<open>rsqrt_approx x\<close>; the square root of a \<^verbatim>\<open>double\<close> is the \<^verbatim>\<open>float\<close> square root of \<open>x\<close>
  narrowed to single precision, widened back to \<^verbatim>\<open>double\<close>. The arithmetic is that of
  \<^verbatim>\<open>float\<close>.
\<close>

definition rsqrt_approx_spec :: "32 word scalar \<Rightarrow> 32 word scalar" where
  "rsqrt_approx_spec x =
     (let y = 0x5F3759DF - drop_bit 1 (raw x)
      in scalar (float_mul y
           (float_sub 0x3FC00000 (float_mul (float_mul (float_mul 0x3F000000 (raw x)) y) y))))"

definition sqrt_float_spec :: "32 word scalar \<Rightarrow> 32 word scalar" where
  "sqrt_float_spec x = scalar (float_mul (raw x) (raw (rsqrt_approx_spec x)))"

definition sqrt_double_spec :: "64 word scalar \<Rightarrow> 64 word scalar" where
  "sqrt_double_spec x =
     scalar (double_of_float (raw (sqrt_float_spec (scalar (float_of_double (raw x))))))"

subsection \<open>The number of bits of a significand\<close>

lemma bit_length_pos: "0 < m \<Longrightarrow> bit_length m = Suc (bit_length (m div 2))"
  by (subst bit_length.simps) simp

lemma bit_length_zero: "bit_length 0 = 0"
  by (subst bit_length.simps) simp

lemma bit_length_bounds:
  "0 < m \<Longrightarrow> 2 ^ (bit_length m - 1) \<le> m \<and> m < 2 ^ bit_length m"
proof (induction m rule: bit_length.induct)
  case (1 n)
  show ?case
  proof (cases "n div 2 = 0")
    case True
    with 1(2) have n1: "n = 1" by (simp add: div_eq_0_iff) 
    have "bit_length 1 = Suc (bit_length 0)"
      using bit_length_pos[of 1] by simp
    then show ?thesis by (simp add: n1 bit_length_zero)
  next
    case False
    then have h: "0 < n div 2" by simp
    from 1(2) have n0: "n \<noteq> 0" by simp
    from 1(1)[OF n0 h] have lo: "2 ^ (bit_length (n div 2) - 1) \<le> n div 2"
      and hi: "n div 2 < 2 ^ bit_length (n div 2)" by simp_all
    have bl: "bit_length n = Suc (bit_length (n div 2))"
      using 1(2) by (rule bit_length_pos)
    have pos: "0 < bit_length (n div 2)"
      using bit_length_pos[OF h] by simp
    have "2 ^ (bit_length n - 1) = 2 * 2 ^ (bit_length (n div 2) - 1)"
      using pos by (simp add: bl power_eq_if)
    also have "\<dots> \<le> 2 * (n div 2)" using lo by simp
    also have "\<dots> \<le> n" by simp
    finally have a: "2 ^ (bit_length n - 1) \<le> n" .
    have "n < 2 * (n div 2) + 2" by presburger
    also have "\<dots> \<le> 2 * 2 ^ bit_length (n div 2)" using hi by simp
    finally have b: "n < 2 ^ bit_length n" by (simp add: bl)
    from a b show ?thesis ..
  qed
qed

lemma bit_length_unique:
  assumes "2 ^ k \<le> m" and "m < 2 ^ Suc k"
  shows "bit_length m = Suc k"
proof -
  from assms(1) have m: "0 < m" by (rule less_le_trans[rotated]) simp
  note b = bit_length_bounds[OF m]
  have "(2::nat) ^ k < 2 ^ bit_length m"
    using assms(1) b by (meson le_less_trans)
  then have 1: "k < bit_length m" by (simp only: power_strict_increasing_iff[of 2] one_less_numeral_iff semiring_norm)
  have "(2::nat) ^ (bit_length m - 1) < 2 ^ Suc k"
    using assms(2) b by (meson le_less_trans)
  then have 2: "bit_length m - 1 < Suc k" by (simp only: power_strict_increasing_iff[of 2] one_less_numeral_iff semiring_norm)
  from 1 2 show ?thesis by simp
qed

lemma bit_length_scale:
  assumes "0 < m"
  shows "bit_length (m * 2 ^ k) = bit_length m + k"
proof -
  note b = bit_length_bounds[OF assms]
  have pos: "0 < bit_length m"
    using bit_length_pos[OF assms] by simp
  then obtain j where j: "bit_length m = Suc j" by (cases "bit_length m") simp_all
  from b have lo: "2 ^ j \<le> m" and hi: "m < 2 ^ Suc j" by (simp_all add: j)
  have "2 ^ (j + k) \<le> m * 2 ^ k"
    using lo by (simp add: power_add)
  moreover have "m * 2 ^ k < 2 ^ Suc (j + k)"
    using hi by (simp add: power_add)
  ultimately have "bit_length (m * 2 ^ k) = Suc (j + k)" by (rule bit_length_unique)
  then show ?thesis by (simp add: j)
qed

lemma bit_length_le:
  assumes "m < 2 ^ k"
  shows "bit_length m \<le> k"
proof (cases "m = 0")
  case True
  then show ?thesis by (simp add: bit_length_zero)
next
  case False
  then have "0 < m" by simp
  from bit_length_bounds[OF this] assms have "(2::nat) ^ (bit_length m - 1) < 2 ^ k"
    by (meson le_less_trans)
  then have "bit_length m - 1 < k" by (simp only: power_strict_increasing_iff[of 2] one_less_numeral_iff semiring_norm)
  then show ?thesis by simp
qed

lemma round_nearest_even_exact:
  assumes "d \<le> k"
  shows "round_nearest_even (m * 2 ^ k) d = m * 2 ^ (k - d)"
proof -
  have e: "m * 2 ^ k = m * 2 ^ (k - d) * 2 ^ d"
    using assms by (simp add: power_add[symmetric] mult.assoc)
  have t: "m * 2 ^ k div 2 ^ d = m * 2 ^ (k - d)"
    unfolding e by simp
  have r: "m * 2 ^ k mod 2 ^ d = 0"
    unfolding e by simp
  show ?thesis
    by (simp add: round_nearest_even_def Let_def t r)
qed

lemma round_nearest_even_scale:
  assumes "0 < d"
  shows "round_nearest_even (m * 2 ^ k) (d + k) = round_nearest_even m d"
proof -
  have nz: "(2::nat) ^ k \<noteq> 0" by simp
  have t: "m * 2 ^ k div 2 ^ (d + k) = m div 2 ^ d"
    unfolding power_add using nz by (rule div_mult_mult2)
  have r: "m * 2 ^ k mod 2 ^ (d + k) = m mod 2 ^ d * 2 ^ k"
    unfolding power_add by (rule mod_mult_mult2)
  have "d + k - 1 = d - 1 + k" using assms by simp
  then have h: "(2::nat) ^ (d + k - 1) = 2 ^ (d - 1) * 2 ^ k"
    by (simp only: power_add)
  have c1: "(2::nat) ^ (d - 1) * 2 ^ k < m mod 2 ^ d * 2 ^ k \<longleftrightarrow> 2 ^ (d - 1) < m mod 2 ^ d"
    by simp
  have c2: "m mod 2 ^ d * 2 ^ k = 2 ^ (d - 1) * 2 ^ k \<longleftrightarrow> m mod 2 ^ d = 2 ^ (d - 1)"
    by simp
  have dk: "0 < d + k" using assms by simp
  show ?thesis
    unfolding round_nearest_even_def Let_def t r h c1 c2
    using assms dk by (simp only: simp_thms)
qed

subsection \<open>Rounding depends on the number only\<close>

text \<open>
  \<open>m * 2 ^ k\<close> at the exponent \<open>q - k\<close> is the same number as \<open>m\<close> at \<open>q\<close>, and rounds to the
  same pattern.
\<close>

lemma round_exponent_scale:
  assumes "0 < m"
  shows "round_exponent mb eb (m * 2 ^ k) (q - int k) = round_exponent mb eb m q"
proof -
  have "q - int k + int (bit_length m + k) - 1 - int mb = q + int (bit_length m) - 1 - int mb"
    by simp
  then show ?thesis
    unfolding round_exponent_def bit_length_scale[OF assms] by (simp only:)
qed

lemma round_significand_scale:
  assumes "0 < m"
  shows "round_significand mb eb (m * 2 ^ k) (q - int k) = round_significand mb eb m q"
proof -
  define r where "r = round_exponent mb eb m q"
  have r': "round_exponent mb eb (m * 2 ^ k) (q - int k) = r"
    unfolding r_def using assms by (rule round_exponent_scale)
  have lhs: "round_significand mb eb (m * 2 ^ k) (q - int k) =
               (if r \<le> q - int k then m * 2 ^ k * 2 ^ nat (q - int k - r)
                else round_nearest_even (m * 2 ^ k) (nat (r - (q - int k))))"
    unfolding round_significand_def Let_def r' ..
  have rhs: "round_significand mb eb m q =
               (if r \<le> q then m * 2 ^ nat (q - r) else round_nearest_even m (nat (r - q)))"
    unfolding round_significand_def Let_def r_def ..
  consider (a) "r \<le> q - int k" | (b) "q - int k < r" "r \<le> q" | (c) "q < r" by linarith
  then show ?thesis
  proof cases
    case a
    then have rq: "r \<le> q" by simp
    have "nat (q - r) = k + nat (q - int k - r)" using a by simp
    then have "(2::nat) ^ nat (q - r) = 2 ^ k * 2 ^ nat (q - int k - r)"
      by (simp only: power_add)
    then show ?thesis
      unfolding lhs rhs using a rq by (simp only: if_True mult.assoc)
  next
    case b
    define d where "d = nat (r - (q - int k))"
    have dk: "d \<le> k" using b by (simp add: d_def)
    have e: "k - d = nat (q - r)" using b by (simp add: d_def)
    have "round_nearest_even (m * 2 ^ k) d = m * 2 ^ (k - d)"
      using dk by (rule round_nearest_even_exact)
    then show ?thesis
      unfolding lhs rhs d_def[symmetric] e using b by simp
  next
    case c
    define d where "d = nat (r - q)"
    have d0: "0 < d" using c by (simp add: d_def)
    have e: "nat (r - (q - int k)) = d + k" using c by (simp add: d_def)
    have n: "\<not> r \<le> q - int k" "\<not> r \<le> q" using c by simp_all
    have "round_nearest_even (m * 2 ^ k) (d + k) = round_nearest_even m d"
      using d0 by (rule round_nearest_even_scale)
    then show ?thesis
      unfolding lhs rhs e d_def[symmetric] using n by (simp only: if_False)
  qed
qed

lemma fp_round_scale:
  assumes "0 < m"
  shows "fp_round mb eb s (m * 2 ^ k) (q - int k) = fp_round mb eb s m q"
proof -
  have z: "m * 2 ^ k = 0 \<longleftrightarrow> m = 0" by simp
  show ?thesis
    unfolding fp_round_def round_exponent_scale[OF assms] round_significand_scale[OF assms] z ..
qed

subsection \<open>The fields of a packed pattern\<close>

lemma sign_or_magnitude:
  assumes "M < 2 ^ k"
  shows "(2::nat) ^ k OR M = 2 ^ k + M"
proof -
  have "\<not> bit ((2::nat) ^ k) n \<or> \<not> bit M n" for n
  proof (cases "n = k")
    case True
    have "M div 2 ^ k = 0" using assms by simp
    then have "\<not> bit M k" by (simp add: bit_iff_odd)
    then show ?thesis using True by simp
  next
    case False
    then show ?thesis by (simp add: bit_exp_iff)
  qed
  then show ?thesis by (rule disjunctive_add[symmetric])
qed

lemma unat_fp_pack:
  assumes len: "LENGTH('a::len) = mb + eb + 1" and M: "M < 2 ^ (mb + eb)"
  shows "unat (fp_pack mb eb s M :: 'a word) = (if s then 1 else 0) * 2 ^ (mb + eb) + M"
proof -
  have "(2::nat) ^ (mb + eb) < 2 ^ LENGTH('a)"
    unfolding len by simp
  with M have Mlen: "M < 2 ^ LENGTH('a)" by (rule less_trans)
  have lo: "unat (word_of_nat M :: 'a word) = M"
    using Mlen by (simp add: unat_of_nat)
  have hi: "unat (push_bit (mb + eb) 1 :: 'a word) = 2 ^ (mb + eb)"
  proof -
    have "unat (word_of_nat (2 ^ (mb + eb)) :: 'a word) = 2 ^ (mb + eb) mod 2 ^ LENGTH('a)"
      by (rule unat_of_nat)
    also have "\<dots> = 2 ^ (mb + eb)"
      by (rule mod_less) (simp add: len)
    finally show ?thesis by (simp add: push_bit_of_1)
  qed
  show ?thesis
  proof (cases s)
    case True
    have "unat (fp_pack mb eb s M :: 'a word) = 2 ^ (mb + eb) OR M"
      using True by (simp only: fp_pack_def if_True unsigned_or_eq hi lo)
    then show ?thesis
      using True by (simp only: sign_or_magnitude[OF M] if_True mult_1)
  next
    case False
    then show ?thesis by (simp add: fp_pack_def lo)
  qed
qed

lemma fields_of_fp_pack:
  assumes len: "LENGTH('a::len) = mb + eb + 1" and M: "M < 2 ^ (mb + eb)"
  shows "fraction mb (fp_pack mb eb s M :: 'a word) = M mod 2 ^ mb"
    and "biased_exponent mb eb (fp_pack mb eb s M :: 'a word) = M div 2 ^ mb"
    and "sign_bit mb eb (fp_pack mb eb s M :: 'a word) \<longleftrightarrow> s"
proof -
  define S :: nat where "S = (if s then 1 else 0)"
  have u: "unat (fp_pack mb eb s M :: 'a word) = S * 2 ^ (mb + eb) + M"
    unfolding S_def using len M by (rule unat_fp_pack)
  have S: "S \<le> 1" by (simp add: S_def)
  note f = fields_of_sum[OF len u M S]
  show "fraction mb (fp_pack mb eb s M :: 'a word) = M mod 2 ^ mb" by (rule f(1))
  show "biased_exponent mb eb (fp_pack mb eb s M :: 'a word) = M div 2 ^ mb" by (rule f(2))
  show "sign_bit mb eb (fp_pack mb eb s M :: 'a word) \<longleftrightarrow> s"
    unfolding f(3) by (simp add: S_def)
qed

subsection \<open>Numbers that need no rounding\<close>

text \<open>
  A number whose significand fits the format and whose exponent is in range is
  represented exactly: the pattern it rounds to is finite and denotes the same number.
\<close>

lemma fp_round_exact:
  fixes s :: bool
  assumes len: "LENGTH('a::len) = mb + eb + 1"
    and m0: "0 < m" and fit: "bit_length m \<le> mb + 1" and low: "unit_min mb eb \<le> q"
    and high: "round_exponent mb eb m q - unit_min mb eb + 2 \<le> int (2 ^ eb - 1)"
  defines "r \<equiv> round_exponent mb eb m q"
  defines "w \<equiv> fp_round mb eb s m q :: 'a word"
  shows "r \<le> q"
    and "biased_exponent mb eb w \<noteq> 2 ^ eb - 1"
    and "sign_bit mb eb w \<longleftrightarrow> s"
    and "significand mb eb w = m * 2 ^ nat (q - r)"
    and "unit_exponent mb eb w = r"
proof -
  define L where "L = bit_length m"
  define j where "j = nat (r - unit_min mb eb)"
  define n where "n = m * 2 ^ nat (q - r)"
  define E :: nat where "E = 2 ^ eb - 1"
  define P :: nat where "P = 2 ^ mb"
  have r_eq: "r = max (unit_min mb eb) (q + int L - 1 - int mb)"
    by (simp only: r_def round_exponent_def L_def)
  have rge: "unit_min mb eb \<le> r" by (simp add: r_eq)
  have fitL: "L \<le> mb + 1" using fit by (simp only: L_def)
  show rq: "r \<le> q"
    unfolding r_eq using low fitL by simp
  have rj: "r = unit_min mb eb + int j"
    using rge by (simp add: j_def)
  have sig: "round_significand mb eb m q = n"
    using rq by (simp only: round_significand_def Let_def r_def[symmetric] if_True n_def)
  note bl = bit_length_bounds[OF m0, folded L_def]
  have Lpos: "0 < L"
    using bit_length_pos[OF m0] by (simp add: L_def)
  \<comment> \<open>bounds of the significand\<close>
  have "int L + (q - r) \<le> int mb + 1"
    unfolding r_eq by simp
  then have ex: "L + nat (q - r) \<le> mb + 1"
    using rq by linarith
  have "n < 2 ^ L * 2 ^ nat (q - r)"
    unfolding n_def using bl by simp
  also have "\<dots> = 2 ^ (L + nat (q - r))" by (simp only: power_add)
  also have "\<dots> \<le> 2 ^ (mb + 1)"
    using ex by (intro power_increasing) simp_all
  finally have nhi: "n < 2 * P" by (simp add: P_def)
  have nlo: "P \<le> n" if "0 < j"
  proof -
    from that have "unit_min mb eb < r" by (simp add: rj)
    then have "r = q + int L - 1 - int mb" unfolding r_eq by simp
    then have "int (L - 1) + (q - r) = int mb" using Lpos by simp
    then have e: "L - 1 + nat (q - r) = mb" using rq by linarith
    have "P = 2 ^ (L - 1) * 2 ^ nat (q - r)"
      unfolding P_def by (simp only: power_add[symmetric] e)
    also have "\<dots> \<le> n"
      unfolding n_def using bl by simp
    finally show ?thesis .
  qed
  have P0: "0 < P" by (simp add: P_def)
  have nd: "n div P \<le> 1"
    using nhi P0 by (simp add: less_mult_imp_div_less less_Suc_eq_le[symmetric] mult.commute)
  have nd1: "n div P = 1" if "P \<le> n"
    using that nhi P0 by (intro div_nat_eqI) simp_all
  have nd0: "n div P = 0 \<Longrightarrow> n mod P = n"
    using P0 by (simp add: div_eq_0_iff)
  have nm1: "n div P = 1 \<Longrightarrow> P + n mod P = n"
    using div_mult_mod_eq[of n P] by simp
  \<comment> \<open>the magnitude\<close>
  define M where "M = j * P + n"
  have mag: "nat (round_exponent mb eb m q - unit_min mb eb) * 2 ^ mb + round_significand mb eb m q = M"
    by (simp only: M_def j_def r_def P_def sig)
  have jE: "j + 2 \<le> E"
    using high rge unfolding r_def[symmetric] E_def j_def by linarith
  have "M < j * P + 2 * P" unfolding M_def using nhi by simp
  also have "\<dots> = (j + 2) * P" by (simp add: algebra_simps)
  also have "\<dots> \<le> E * P" using jE by (rule mult_le_mono1)
  finally have ME: "M < E * P" .
  have "E * P \<le> 2 ^ eb * 2 ^ mb"
    unfolding E_def P_def by (rule mult_le_mono1) simp
  with ME have "M < 2 ^ eb * 2 ^ mb" by (rule less_le_trans)
  then have Mtop: "M < 2 ^ (mb + eb)" by (simp add: power_add mult.commute)
  have nov: "\<not> (2 ^ eb - 1) * 2 ^ mb \<le> M"
    using ME by (simp add: E_def P_def)
  have m_ne: "m \<noteq> 0" using m0 by simp
  have w: "w = fp_pack mb eb s M"
    unfolding w_def fp_round_def Let_def mag using m_ne nov by (simp only: if_False)
  note fl = fields_of_fp_pack[OF len Mtop, of s, folded w, folded P_def]
  have Md: "M div P = j + n div P"
    unfolding M_def using P0 by simp
  have Mm: "M mod P = n mod P"
    unfolding M_def by simp
  have e: "biased_exponent mb eb w = j + n div P"
    by (simp only: fl(2) Md)
  have f: "fraction mb w = n mod P"
    by (simp only: fl(1) Mm)
  have "j + n div P < E" using jE nd by linarith
  then show "biased_exponent mb eb w \<noteq> 2 ^ eb - 1"
    unfolding e E_def by simp
  show "sign_bit mb eb w \<longleftrightarrow> s" by (rule fl(3))
  show "significand mb eb w = m * 2 ^ nat (q - r)"
  proof (cases "j + n div P = 0")
    case True
    then have "n div P = 0" by simp
    then have "n mod P = n" by (rule nd0)
    then show ?thesis
      unfolding significand_def e f n_def[symmetric] using True by simp
  next
    case False
    have "n div P = 1"
    proof (cases "0 < j")
      case True
      then have "P \<le> n" by (rule nlo)
      then show ?thesis by (rule nd1)
    next
      case j0: False
      with False have "n div P \<noteq> 0" by simp
      with nd show ?thesis by simp
    qed
    then have "P + n mod P = n" by (rule nm1)
    then show ?thesis
      unfolding significand_def e f n_def[symmetric] P_def[symmetric]
      by (simp only: if_not_P[OF False])
  qed
  show "unit_exponent mb eb w = r"
  proof (cases "j + n div P = 0")
    case True
    then have "j = 0" by simp
    then show ?thesis
      unfolding unit_exponent_def e rj using True by (simp add: unit_min_def)
  next
    case False
    have "n div P = 1"
    proof (cases "0 < j")
      case True
      then have "P \<le> n" by (rule nlo)
      then show ?thesis by (rule nd1)
    next
      case j0: False
      with False have "n div P \<noteq> 0" by simp
      with nd show ?thesis by simp
    qed
    then show ?thesis
      unfolding unit_exponent_def e rj by (simp add: unit_min_def)
  qed
qed

lemma significand_zero: "significand mb eb w = 0 \<longleftrightarrow> is_zero mb eb w"
  by (simp add: significand_def is_zero_def)

lemma fp_round_zero: "fp_round mb eb s 0 q = fp_pack mb eb s 0"
  by (simp add: fp_round_def)

lemma classes_exclusive:
  "is_nan mb eb w \<Longrightarrow> \<not> is_inf mb eb w"
  "biased_exponent mb eb w \<noteq> 2 ^ eb - 1 \<Longrightarrow> \<not> is_nan mb eb w \<and> \<not> is_inf mb eb w"
  by (auto simp add: is_nan_def is_inf_def is_zero_def)

lemma float_inf_not_zero: "is_inf 23 8 w \<Longrightarrow> \<not> is_zero 23 8 w"
  by (simp add: is_inf_def is_zero_def)

text \<open>The special values of double precision.\<close>

lemma double_quiet_nan: "is_nan 52 11 (quiet_nan 52 11 :: 64 word)"
  by (simp add: is_nan_def quiet_nan_def fp_pack_def biased_exponent_def fraction_def)

lemma double_infinity:
  "is_inf 52 11 (infinity 52 11 s :: 64 word)"
  "\<not> is_nan 52 11 (infinity 52 11 s :: 64 word)"
  "\<not> is_zero 52 11 (infinity 52 11 s :: 64 word)"
  "sign_bit 52 11 (infinity 52 11 s :: 64 word) \<longleftrightarrow> s"
  by (cases s; simp add: is_inf_def is_nan_def is_zero_def infinity_def fp_pack_def
      biased_exponent_def fraction_def sign_bit_def)+

lemma double_zero:
  "is_zero 52 11 (fp_pack 52 11 s 0 :: 64 word)"
  "\<not> is_nan 52 11 (fp_pack 52 11 s 0 :: 64 word)"
  "\<not> is_inf 52 11 (fp_pack 52 11 s 0 :: 64 word)"
  "sign_bit 52 11 (fp_pack 52 11 s 0 :: 64 word) \<longleftrightarrow> s"
  by (cases s; simp add: is_inf_def is_nan_def is_zero_def fp_pack_def
      biased_exponent_def fraction_def sign_bit_def)+

lemma float_of_double_special:
  "float_of_double (quiet_nan 52 11) = quiet_nan 23 8"
  "float_of_double (infinity 52 11 s) = infinity 23 8 s"
  "float_of_double (fp_pack 52 11 s 0) = fp_pack 23 8 s 0"
proof -
  show "float_of_double (quiet_nan 52 11) = quiet_nan 23 8"
    by (simp add: float_of_double_def fp_convert_def double_quiet_nan)
  show "float_of_double (infinity 52 11 s) = infinity 23 8 s"
    by (simp add: float_of_double_def fp_convert_def double_infinity)
  have "significand 52 11 (fp_pack 52 11 s 0 :: 64 word) = 0"
    by (simp add: significand_zero double_zero)
  then show "float_of_double (fp_pack 52 11 s 0) = fp_pack 23 8 s 0"
    by (simp add: float_of_double_def fp_convert_def double_zero fp_round_zero)
qed

text \<open>The fields of a single-precision pattern.\<close>

lemma float_fields:
  fixes w :: "32 word"
  shows "biased_exponent 23 8 w < 256" and "fraction 23 w < 2 ^ 23"
    and "significand 23 8 w < 2 ^ 24"
    and "- 149 \<le> unit_exponent 23 8 w"
    and "biased_exponent 23 8 w \<noteq> 255 \<Longrightarrow> unit_exponent 23 8 w \<le> 104"
proof -
  show e: "biased_exponent 23 8 w < 256"
    by (simp add: biased_exponent_unat)
  show f: "fraction 23 w < 2 ^ 23"
    by (simp add: fraction_unat)
  show "significand 23 8 w < 2 ^ 24"
    using f by (simp add: significand_def)
  show "- 149 \<le> unit_exponent 23 8 w"
    by (simp add: unit_exponent_def bias_def)
  show "unit_exponent 23 8 w \<le> 104" if "biased_exponent 23 8 w \<noteq> 255"
    using that e by (simp add: unit_exponent_def bias_def)
qed

lemma double_round_exact:
  fixes s :: bool
  assumes m0: "0 < m" and m53: "m < 2 ^ 53" and low: "- 1074 \<le> q" and high: "q \<le> 900"
  defines "w \<equiv> fp_round 52 11 s m q :: 64 word"
  shows "\<not> is_nan 52 11 w" and "\<not> is_inf 52 11 w" and "\<not> is_zero 52 11 w"
    and "sign_bit 52 11 w \<longleftrightarrow> s"
    and "\<exists>k. significand 52 11 w = m * 2 ^ k \<and> unit_exponent 52 11 w = q - int k"
proof -
  have len: "LENGTH(64) = 52 + 11 + 1" by simp
  have um: "unit_min 52 11 = - 1074" by (simp add: unit_min_def bias_def)
  have fit: "bit_length m \<le> 52 + 1"
    using m53 by (intro bit_length_le) simp
  have lo: "unit_min 52 11 \<le> q" using low by (simp only: um)
  have "round_exponent 52 11 m q \<le> 900"
    unfolding round_exponent_def um using fit high by simp
  then have hi: "round_exponent 52 11 m q - unit_min 52 11 + 2 \<le> int (2 ^ 11 - 1)"
    by (simp add: um)
  note ex = fp_round_exact(1)[OF len m0 fit lo hi]
    fp_round_exact(2-5)[OF len m0 fit lo hi, where s = s, folded w_def]
  from ex(2) show "\<not> is_nan 52 11 w" and "\<not> is_inf 52 11 w"
    by (simp_all add: is_nan_def is_inf_def)
  have "significand 52 11 w \<noteq> 0"
    unfolding ex(4) using m0 by simp
  then show "\<not> is_zero 52 11 w" by (simp add: significand_zero)
  show "sign_bit 52 11 w \<longleftrightarrow> s" by (rule ex(3))
  have "unit_exponent 52 11 w = q - int (nat (q - round_exponent 52 11 m q))"
    unfolding ex(5) using ex(1) by simp
  with ex(4) show "\<exists>k. significand 52 11 w = m * 2 ^ k \<and> unit_exponent 52 11 w = q - int k"
    by blast
qed

lemma double_of_float_special:
  "is_nan 23 8 w \<Longrightarrow> double_of_float w = quiet_nan 52 11"
  "is_inf 23 8 w \<Longrightarrow> double_of_float w = infinity 52 11 (sign_bit 23 8 w)"
  "is_zero 23 8 w \<Longrightarrow> double_of_float w = fp_pack 52 11 (sign_bit 23 8 w) 0"
proof -
  show "double_of_float w = quiet_nan 52 11" if "is_nan 23 8 w"
    using that by (simp add: double_of_float_def fp_convert_def)
  show "double_of_float w = infinity 52 11 (sign_bit 23 8 w)" if "is_inf 23 8 w"
    using that classes_exclusive(1)[of 23 8 w] by (auto simp add: double_of_float_def fp_convert_def)
  show "double_of_float w = fp_pack 52 11 (sign_bit 23 8 w) 0" if "is_zero 23 8 w"
  proof -
    from that have "significand 23 8 w = 0" by (simp only: significand_zero)
    moreover from that have "\<not> is_nan 23 8 w" "\<not> is_inf 23 8 w"
      by (simp_all add: is_zero_def is_nan_def is_inf_def)
    ultimately show ?thesis
      by (simp add: double_of_float_def fp_convert_def fp_round_zero)
  qed
qed

lemma double_of_float_finite:
  assumes fin: "biased_exponent 23 8 w \<noteq> 255" and nz: "\<not> is_zero 23 8 w"
  shows "\<not> is_nan 52 11 (double_of_float w)" and "\<not> is_inf 52 11 (double_of_float w)"
    and "\<not> is_zero 52 11 (double_of_float w)"
    and "sign_bit 52 11 (double_of_float w) \<longleftrightarrow> sign_bit 23 8 w"
    and "\<exists>k. significand 52 11 (double_of_float w) = significand 23 8 w * 2 ^ k
           \<and> unit_exponent 52 11 (double_of_float w) = unit_exponent 23 8 w - int k"
proof -
  note ff = float_fields[of w]
  from fin have cl: "\<not> is_nan 23 8 w" "\<not> is_inf 23 8 w"
    by (simp_all add: is_nan_def is_inf_def)
  have d: "double_of_float w
           = fp_round 52 11 (sign_bit 23 8 w) (significand 23 8 w) (unit_exponent 23 8 w)"
    using cl by (simp add: double_of_float_def fp_convert_def)
  have m0: "0 < significand 23 8 w"
    using nz by (simp add: significand_zero[symmetric])
  have "(2::nat) ^ 24 \<le> 2 ^ 53" by simp
  with ff(3) have m53: "significand 23 8 w < 2 ^ 53" by (rule less_le_trans)
  have low: "- 1074 \<le> unit_exponent 23 8 w" using ff(4) by simp
  have high: "unit_exponent 23 8 w \<le> 900" using ff(5)[OF fin] by simp
  note ex = double_round_exact[OF m0 m53 low high, where s = "sign_bit 23 8 w", folded d]
  show "\<not> is_nan 52 11 (double_of_float w)" by (rule ex(1))
  show "\<not> is_inf 52 11 (double_of_float w)" by (rule ex(2))
  show "\<not> is_zero 52 11 (double_of_float w)" by (rule ex(3))
  show "sign_bit 52 11 (double_of_float w) \<longleftrightarrow> sign_bit 23 8 w" by (rule ex(4))
  show "\<exists>k. significand 52 11 (double_of_float w) = significand 23 8 w * 2 ^ k
           \<and> unit_exponent 52 11 (double_of_float w) = unit_exponent 23 8 w - int k"
    by (rule ex(5))
qed

text \<open>Widening keeps the class and the sign of every value that is not a NaN.\<close>

lemma double_of_float_class:
  "is_nan 52 11 (double_of_float w) \<longleftrightarrow> is_nan 23 8 w"
  "\<not> is_nan 23 8 w \<Longrightarrow> is_inf 52 11 (double_of_float w) \<longleftrightarrow> is_inf 23 8 w"
  "\<not> is_nan 23 8 w \<Longrightarrow> is_zero 52 11 (double_of_float w) \<longleftrightarrow> is_zero 23 8 w"
  "\<not> is_nan 23 8 w \<Longrightarrow> sign_bit 52 11 (double_of_float w) \<longleftrightarrow> sign_bit 23 8 w"
proof -
  consider (nan) "is_nan 23 8 w" | (inf) "is_inf 23 8 w" | (zero) "is_zero 23 8 w"
    | (fin) "biased_exponent 23 8 w \<noteq> 255" "\<not> is_zero 23 8 w"
    by (cases "fraction 23 w = 0") (auto simp add: is_nan_def is_inf_def)
  then have "(is_nan 52 11 (double_of_float w) \<longleftrightarrow> is_nan 23 8 w)
     \<and> (\<not> is_nan 23 8 w \<longrightarrow>
          (is_inf 52 11 (double_of_float w) \<longleftrightarrow> is_inf 23 8 w)
          \<and> (is_zero 52 11 (double_of_float w) \<longleftrightarrow> is_zero 23 8 w)
          \<and> (sign_bit 52 11 (double_of_float w) \<longleftrightarrow> sign_bit 23 8 w))"
  proof cases
    case nan
    then show ?thesis
      by (simp add: double_of_float_special(1) double_quiet_nan)
  next
    case inf
    then have "\<not> is_nan 23 8 w" "\<not> is_zero 23 8 w"
      by (simp_all add: is_inf_def is_nan_def is_zero_def)
    with inf show ?thesis
      by (simp add: double_of_float_special(2) double_infinity)
  next
    case zero
    then have "\<not> is_nan 23 8 w" "\<not> is_inf 23 8 w"
      by (simp_all add: is_inf_def is_nan_def is_zero_def)
    with zero show ?thesis
      by (simp add: double_of_float_special(3) double_zero)
  next
    case fin
    from fin(1) have "\<not> is_nan 23 8 w" "\<not> is_inf 23 8 w"
      by (simp_all add: is_nan_def is_inf_def)
    with fin(2) show ?thesis
      by (simp add: double_of_float_finite[OF fin])
  qed
  then show "is_nan 52 11 (double_of_float w) \<longleftrightarrow> is_nan 23 8 w"
    and "\<not> is_nan 23 8 w \<Longrightarrow> is_inf 52 11 (double_of_float w) \<longleftrightarrow> is_inf 23 8 w"
    and "\<not> is_nan 23 8 w \<Longrightarrow> is_zero 52 11 (double_of_float w) \<longleftrightarrow> is_zero 23 8 w"
    and "\<not> is_nan 23 8 w \<Longrightarrow> sign_bit 52 11 (double_of_float w) \<longleftrightarrow> sign_bit 23 8 w"
    by simp_all
qed

subsection \<open>The product of two lanes is rounded once\<close>

text \<open>
  The product of two \<^verbatim>\<open>float\<close> values has at most 48 significant bits and is exact in
  double precision, so that narrowing it rounds the exact product: \<^verbatim>\<open>operator*\<close> on
  \<^verbatim>\<open>scalar<float>\<close> is the multiplication of \<^verbatim>\<open>float\<close>.
\<close>

lemma double_product_narrowed:
  "float_of_double (double_mul (double_of_float a) (double_of_float b)) = float_mul a b"
proof -
  let ?A = "double_of_float a" and ?B = "double_of_float b"
  let ?s = "sign_bit 23 8 a \<noteq> sign_bit 23 8 b"
  note ca = double_of_float_class[of a] and cb = double_of_float_class[of b]
  show ?thesis
  proof (cases "is_nan 23 8 a \<or> is_nan 23 8 b")
    case True
    then have "is_nan 52 11 ?A \<or> is_nan 52 11 ?B"
      by (simp only: ca(1) cb(1))
    then have "double_mul ?A ?B = quiet_nan 52 11"
      by (simp add: double_mul_def fp_mul_def)
    moreover have "float_mul a b = quiet_nan 23 8"
      using True by (simp add: float_mul_def fp_mul_def)
    ultimately show ?thesis
      by (simp only: float_of_double_special(1))
  next
    case False
    then have na: "\<not> is_nan 23 8 a" and nb: "\<not> is_nan 23 8 b" by simp_all
    note cl = ca(1) cb(1) ca(2-4)[OF na] cb(2-4)[OF nb]
    have dm: "double_mul ?A ?B =
        (if is_inf 23 8 a \<or> is_inf 23 8 b
         then (if is_zero 23 8 a \<or> is_zero 23 8 b then quiet_nan 52 11
               else infinity 52 11 ?s)
         else fp_round 52 11 ?s (significand 52 11 ?A * significand 52 11 ?B)
                (unit_exponent 52 11 ?A + unit_exponent 52 11 ?B))"
      using na nb by (simp add: double_mul_def fp_mul_def cl)
    have fm: "float_mul a b =
        (if is_inf 23 8 a \<or> is_inf 23 8 b
         then (if is_zero 23 8 a \<or> is_zero 23 8 b then quiet_nan 23 8
               else infinity 23 8 ?s)
         else fp_round 23 8 ?s (significand 23 8 a * significand 23 8 b)
                (unit_exponent 23 8 a + unit_exponent 23 8 b))"
      using na nb by (simp add: float_mul_def fp_mul_def)
    show ?thesis
    proof (cases "is_inf 23 8 a \<or> is_inf 23 8 b")
      case True
      then show ?thesis
        unfolding dm fm by (simp add: float_of_double_special)
    next
      case fin: False
      then have ea: "biased_exponent 23 8 a \<noteq> 255" and eb: "biased_exponent 23 8 b \<noteq> 255"
        using na nb by (auto simp add: is_inf_def is_nan_def)
      define m where "m = significand 23 8 a * significand 23 8 b"
      define q where "q = unit_exponent 23 8 a + unit_exponent 23 8 b"
      have fm': "float_mul a b = fp_round 23 8 ?s m q"
        unfolding fm m_def q_def using fin by (simp only: if_False)
      show ?thesis
      proof (cases "is_zero 23 8 a \<or> is_zero 23 8 b")
        case True
        then have "is_zero 52 11 ?A \<or> is_zero 52 11 ?B" by (simp only: cl)
        then have "significand 52 11 ?A * significand 52 11 ?B = 0"
          by (simp only: significand_zero[symmetric] mult_eq_0_iff)
        then have "double_mul ?A ?B = fp_pack 52 11 ?s 0"
          unfolding dm using fin by (simp only: if_False fp_round_zero)
        moreover have "m = 0"
          using True by (simp only: m_def significand_zero[symmetric] mult_eq_0_iff)
        ultimately show ?thesis
          by (simp only: fm' fp_round_zero float_of_double_special(3))
      next
        case nz: False
        then have za: "\<not> is_zero 23 8 a" and zb: "\<not> is_zero 23 8 b" by simp_all
        note fa = float_fields[of a] and fb = float_fields[of b]
        from double_of_float_finite(5)[OF ea za] obtain ka
          where ka: "significand 52 11 ?A = significand 23 8 a * 2 ^ ka"
            "unit_exponent 52 11 ?A = unit_exponent 23 8 a - int ka" by blast
        from double_of_float_finite(5)[OF eb zb] obtain kb
          where kb: "significand 52 11 ?B = significand 23 8 b * 2 ^ kb"
            "unit_exponent 52 11 ?B = unit_exponent 23 8 b - int kb" by blast
        have "significand 23 8 a \<noteq> 0" "significand 23 8 b \<noteq> 0"
          using za zb by (simp_all only: significand_zero not_False_eq_True)
        then have m0: "0 < m"
          by (simp add: m_def)
        have "m < 2 ^ 24 * 2 ^ 24"
          unfolding m_def using fa(3) fb(3) by (rule mult_strict_mono) simp_all
        then have m48: "m < 2 ^ 48" by simp
        then have m53: "m < 2 ^ 53" by simp
        have low: "- 1074 \<le> q" using fa(4) fb(4) by (simp add: q_def)
        have high: "q \<le> 900" using fa(5)[OF ea] fb(5)[OF eb] by (simp add: q_def)
        have "significand 52 11 ?A * significand 52 11 ?B = m * 2 ^ (ka + kb)"
          unfolding ka kb m_def by (simp add: power_add)
        moreover have "unit_exponent 52 11 ?A + unit_exponent 52 11 ?B = q - int (ka + kb)"
          unfolding ka kb q_def by simp
        ultimately have "double_mul ?A ?B = fp_round 52 11 ?s (m * 2 ^ (ka + kb)) (q - int (ka + kb))"
          unfolding dm using fin by (simp only: if_False)
        then have d: "double_mul ?A ?B = fp_round 52 11 ?s m q"
          by (simp only: fp_round_scale[OF m0])
        note ex = double_round_exact[OF m0 m53 low high, where s = ?s, folded d]
        from ex(5) obtain k where k: "significand 52 11 (double_mul ?A ?B) = m * 2 ^ k"
          "unit_exponent 52 11 (double_mul ?A ?B) = q - int k" by blast
        have "float_of_double (double_mul ?A ?B) = fp_round 23 8 ?s (m * 2 ^ k) (q - int k)"
          using ex(1,2) by (simp add: float_of_double_def fp_convert_def ex(4) k)
        then show ?thesis
          by (simp only: fp_round_scale[OF m0] fm')
      qed
    qed
  qed
qed

lemma mul_f32_rounds_once: "mul_f32 a b = scalar (float_mul (raw a) (raw b))"
  by (simp only: mul_f32_def double_product_narrowed)

subsection \<open>The source computes the specified square root\<close>

lemma fp_mul_commute: "fp_mul mb eb a b = fp_mul mb eb b a"
proof -
  have "(sign_bit mb eb a \<noteq> sign_bit mb eb b) = (sign_bit mb eb b \<noteq> sign_bit mb eb a)"
    by blast
  then show ?thesis
    unfolding fp_mul_def
    by (simp only: mult.commute[of "significand mb eb a"] add.commute[of "unit_exponent mb eb a"]
        disj_commute[of "is_nan mb eb a"] disj_commute[of "is_inf mb eb a"]
        disj_commute[of "is_zero mb eb a"])
qed

lemma float_mul_commute: "float_mul a b = float_mul b a"
  unfolding float_mul_def by (rule fp_mul_commute)

lemma rsqrt_approx_bits:
  "rsqrt_approx v =
     (let y = 0x5F3759DF - drop_bit 1 (raw v)
      in scalar (float_mul y
           (float_sub 0x3FC00000 (float_mul (float_mul (float_mul (raw v) 0x3F000000) y) y))))"
proof -
  have a: "(from_bytes (CopyBytes 4 (to_bytes 4 w) (uninitialised 4)) :: 32 word) = w"
    for w :: "32 word"
    by (rule reinterpret_same_size) simp
  have b: "(from_bytes (CopyBytes 4 (to_bytes 4 w) (to_bytes 4 f)) :: 32 word) = w"
    for w f :: "32 word"
    by (simp add: CopyBytes_whole length_to_bytes from_to_bytes take_bit_word_eq_self)
  show ?thesis
    by (simp only: rsqrt_approx_def Let_def a b)
qed

lemma rsqrt_approx_refines: "rsqrt_approx x = rsqrt_approx_spec x"
  unfolding rsqrt_approx_bits rsqrt_approx_spec_def
  by (simp only: float_mul_commute[of "raw x"])

lemma sqrt_f32_refines: "sqrt_f32 x = sqrt_float_spec x"
  unfolding sqrt_f32_def sqrt_float_spec_def mul_f32_rounds_once rsqrt_approx_refines
  by (simp only: float_mul_commute[of "raw x"])

lemma sqrt_f64_refines: "sqrt_f64 x = sqrt_double_spec x"
  unfolding sqrt_f64_def sqrt_double_spec_def sqrt_f32_refines ..

subsection \<open>The square root of 4\<close>

text \<open>
  The steps of \<open>rsqrt_approx\<close> and of \<open>sqrt\<close> on \<open>4.0f\<close>, the pattern \<open>0x40800000\<close>, and on the
  \<^verbatim>\<open>double\<close> \<open>4.0\<close>, the pattern \<open>0x4010000000000000\<close>.
\<close>

lemmas fp_fields = is_nan_def is_inf_def is_zero_def biased_exponent_def fraction_def sign_bit_def
  significand_def signed_significand_def unit_exponent_def bias_def

lemmas fp_rounding = fp_round_def round_exponent_def round_significand_def unit_min_def Let_def
  bias_def bit_length.simps round_nearest_even_def
  fp_pack_def infinity_def

lemma rsqrt_approx_four_steps:
  "float_mul 0x40800000 0x3F000000 = 0x40000000"
  "float_mul 0x40000000 0x3EF759DF = 0x3F7759DF"
  "float_mul 0x3F7759DF 0x3EF759DF = 0x3EEEFE8C"
  "float_sub 0x3FC00000 0x3EEEFE8C = 0x3F84405D"
  "float_mul 0x3EF759DF 0x3F84405D = 0x3EFF910F"
  by (simp add: float_mul_def float_sub_def fp_mul_def fp_sub_def fp_fields Let_def,
      simp add: fp_rounding)+

lemma sqrt_four_steps:
  "double_of_float 0x3EFF910F = 0x3FDFF221E0000000"
  "double_of_float 0x40800000 = 0x4010000000000000"
  "double_mul 0x3FDFF221E0000000 0x4010000000000000 = 0x3FFFF221E0000000"
  "float_of_double 0x3FFFF221E0000000 = 0x3FFF910F"
  "float_of_double 0x4010000000000000 = 0x40800000"
  "double_of_float 0x3FFF910F = 0x3FFFF221E0000000"
  by (simp add: double_of_float_def float_of_double_def double_mul_def fp_convert_def fp_mul_def
        fp_fields Let_def,
      simp add: fp_rounding)+

lemma rsqrt_approx_four: "rsqrt_approx (scalar 0x40800000) = scalar 0x3EFF910F"
proof -
  have "(0x5F3759DF :: 32 word) - drop_bit 1 0x40800000 = 0x3EF759DF" by simp
  then show ?thesis
    by (simp add: rsqrt_approx_bits rsqrt_approx_four_steps)
qed

lemma sqrt_f32_four: "sqrt_f32 (scalar 0x40800000) = scalar 0x3FFF910F"
  by (simp add: sqrt_f32_def mul_f32_def rsqrt_approx_four sqrt_four_steps)

lemma sqrt_f64_four: "sqrt_f64 (scalar 0x4010000000000000) = scalar 0x3FFFF221E0000000"
  by (simp add: sqrt_f64_def sqrt_f32_four sqrt_four_steps)

lemma sqrt_f64_four_below_two:
  "fp_less (value_f64 (scalar 0x3FFFF221E0000000)) (value_f64 (scalar 0x4000000000000000))"
  by (simp add: value_f64_def valof_def sign_bit_def biased_exponent_def fraction_def bias_def)

text \<open>
  Claim C5. For every \<^verbatim>\<open>float\<close> lane \<open>x\<close>, \<open>sqrt\<close> returns \<open>x\<close> multiplied by \<open>rsqrt_approx x\<close>,
  and \<open>rsqrt_approx\<close> returns one Newton-Raphson iteration \<open>y * (1.5 - 0.5 * x * y * y)\<close> on
  the guess \<open>y\<close> whose bits are \<open>0x5F3759DF - (bits >> 1)\<close>; for every \<^verbatim>\<open>double\<close> lane \<open>d\<close>,
  \<open>sqrt\<close> returns the \<^verbatim>\<open>float\<close> square root of \<open>d\<close> narrowed to single precision, widened
  back to \<^verbatim>\<open>double\<close>. It is not the correctly rounded square root: for \<open>4.0f\<close> the
  approximation \<open>rsqrt_approx\<close> is \<open>0x3EFF910F\<close>, about 0.49915, and the square root is
  \<open>0x3FFF910F\<close>, about 1.99661; the square root of the \<^verbatim>\<open>double\<close> \<open>4.0\<close> is the same number,
  \<open>0x3FFFF221E0000000\<close>, which is below 2.
\<close>

theorem sqrt_by_rsqrt_approx:
  "sqrt_f32 x = sqrt_float_spec x
   \<and> rsqrt_approx x = rsqrt_approx_spec x
   \<and> sqrt_f64 d = sqrt_double_spec d
   \<and> rsqrt_approx (scalar 0x40800000) = scalar 0x3EFF910F
   \<and> sqrt_f32 (scalar 0x40800000) = scalar 0x3FFF910F
   \<and> sqrt_f64 (scalar 0x4010000000000000) = scalar 0x3FFFF221E0000000
   \<and> fp_less (value_f64 (sqrt_f64 (scalar 0x4010000000000000)))
        (value_f64 (scalar 0x4000000000000000))"
proof (intro conjI)
  show "sqrt_f32 x = sqrt_float_spec x" by (rule sqrt_f32_refines)
  show "rsqrt_approx x = rsqrt_approx_spec x" by (rule rsqrt_approx_refines)
  show "sqrt_f64 d = sqrt_double_spec d" by (rule sqrt_f64_refines)
  show "rsqrt_approx (scalar 0x40800000) = scalar 0x3EFF910F" by (rule rsqrt_approx_four)
  show "sqrt_f32 (scalar 0x40800000) = scalar 0x3FFF910F" by (rule sqrt_f32_four)
  show "sqrt_f64 (scalar 0x4010000000000000) = scalar 0x3FFFF221E0000000"
    by (rule sqrt_f64_four)
  show "fp_less (value_f64 (sqrt_f64 (scalar 0x4010000000000000)))
        (value_f64 (scalar 0x4000000000000000))"
    unfolding sqrt_f64_four by (rule sqrt_f64_four_below_two)
qed

end
